theory Spec2Isabelle
  imports Main "HOL-Library.Word"
begin

section \<open>The object store\<close>

text \<open>
  An \<open>Object\<close> of \<open>src/core/object.cc\<close> has a reference count, an interface id, a
  disposed flag, a collecting flag and the pointer \<open>m_next\<close> to the next object of its
  aggregate.  The count is an unsigned 32-bit integer, as the accumulator of
  \<open>CheckLoose\<close> is; an interface id is 16-bit.  Objects live in a store from addresses
  to objects; a pointer is an optional address, \<open>None\<close> being the null pointer, and an
  address the store does not map is memory that was never allocated or is already
  freed.
\<close>

type_synonym addr = nat

record object =
  m_count :: "32 word"
  m_iid :: "16 word"
  m_disposed :: bool
  m_collecting :: bool
  m_next :: "addr option"

type_synonym heap = "addr \<Rightarrow> object option"

text \<open>
  \<open>AssertionFailed\<close> is a failing \<open>NS_ASSERT\<close>; \<open>InvalidPointer\<close> is a read through
  a null or dangling pointer that no assertion guards.
\<close>

datatype error = AssertionFailed | InvalidPointer

subsection \<open>Rings\<close>

text \<open>
  \<open>next_path h p xs q\<close>: starting at \<open>p\<close> and following \<open>m_next\<close>, the objects met are
  exactly \<open>xs\<close>, in this order, all allocated, and the pointer left after the last one
  is \<open>q\<close>.  \<open>ring h a xs\<close>: the aggregate of \<open>a\<close> is the cycle \<open>xs\<close>, listed from
  \<open>a\<close> in successor order, every member once.
\<close>

fun next_path :: "heap \<Rightarrow> addr \<Rightarrow> addr list \<Rightarrow> addr \<Rightarrow> bool" where
  "next_path h p [] q = (p = q)"
| "next_path h p (x # xs) q =
     (p = x \<and> (case h x of None \<Rightarrow> False
               | Some ob \<Rightarrow> (case m_next ob of None \<Rightarrow> False
                            | Some n \<Rightarrow> next_path h n xs q)))"

definition ring :: "heap \<Rightarrow> addr \<Rightarrow> addr list \<Rightarrow> bool" where
  "ring h a xs = (xs \<noteq> [] \<and> distinct xs \<and> next_path h a xs a)"

definition count_of :: "heap \<Rightarrow> addr \<Rightarrow> 32 word" where
  "count_of h x = (case h x of None \<Rightarrow> 0 | Some ob \<Rightarrow> m_count ob)"

definition iid_of :: "heap \<Rightarrow> addr \<Rightarrow> 16 word" where
  "iid_of h x = (case h x of None \<Rightarrow> 0 | Some ob \<Rightarrow> m_iid ob)"

definition disposed_of :: "heap \<Rightarrow> addr \<Rightarrow> bool" where
  "disposed_of h x = (case h x of None \<Rightarrow> False | Some ob \<Rightarrow> m_disposed ob)"

definition collecting_of :: "heap \<Rightarrow> addr \<Rightarrow> bool" where
  "collecting_of h x = (case h x of None \<Rightarrow> False | Some ob \<Rightarrow> m_collecting ob)"

section \<open>Reference counting\<close>

subsection \<open>\<open>Object::CheckLoose\<close>\<close>

text \<open>
  The do-while loop of \<open>CheckLoose\<close>: add the count of \<open>current\<close> to the 32-bit
  accumulator, move to its successor, stop when the successor is \<open>this\<close>.  A loop over a
  store that is not a ring need not stop, hence the result in \<open>option\<close>.
\<close>

partial_function (option) CheckLoose_loop ::
  "heap \<Rightarrow> addr \<Rightarrow> addr option \<Rightarrow> 32 word \<Rightarrow> (error + 32 word) option" where
  "CheckLoose_loop h this current refcount =
     (case current of
        None \<Rightarrow> Some (Inl InvalidPointer)
      | Some c \<Rightarrow>
          (case h c of
             None \<Rightarrow> Some (Inl InvalidPointer)
           | Some ob \<Rightarrow>
               if m_next ob \<noteq> Some this
               then CheckLoose_loop h this (m_next ob) (refcount + m_count ob)
               else Some (Inr (refcount + m_count ob))))"

definition CheckLoose :: "heap \<Rightarrow> addr \<Rightarrow> (error + bool) option" where
  "CheckLoose h this =
     (case CheckLoose_loop h this (Some this) 0 of
        None \<Rightarrow> None
      | Some (Inl e) \<Rightarrow> Some (Inl e)
      | Some (Inr refcount) \<Rightarrow> Some (Inr (0 < refcount)))"

subsection \<open>\<open>Object::MaybeDelete\<close>\<close>

text \<open>
  First loop: return as soon as a member has a count that is not zero (\<open>Inr False\<close>:
  the function returned early; \<open>Inr True\<close>: the loop ran to its end).
\<close>

partial_function (option) MaybeDelete_check ::
  "heap \<Rightarrow> addr \<Rightarrow> addr option \<Rightarrow> (error + bool) option" where
  "MaybeDelete_check h this current =
     (case current of
        None \<Rightarrow> Some (Inl AssertionFailed)
      | Some c \<Rightarrow>
          (case h c of
             None \<Rightarrow> Some (Inl InvalidPointer)
           | Some ob \<Rightarrow>
               if m_count ob \<noteq> 0 then Some (Inr False)
               else if m_next ob \<noteq> Some this
               then MaybeDelete_check h this (m_next ob)
               else Some (Inr True)))"

text \<open>
  Second loop: read the successor, delete \<open>current\<close> (the destructor runs and the
  memory is freed: the store forgets the address, and the address is appended to the
  list of deleted objects), move on, stop at \<open>end\<close>.
\<close>

partial_function (option) MaybeDelete_free ::
  "heap \<Rightarrow> addr \<Rightarrow> addr option \<Rightarrow> addr list \<Rightarrow> (error + heap \<times> addr list) option" where
  "MaybeDelete_free h end current deleted =
     (case current of
        None \<Rightarrow> Some (Inl AssertionFailed)
      | Some c \<Rightarrow>
          (case h c of
             None \<Rightarrow> Some (Inl InvalidPointer)
           | Some ob \<Rightarrow>
               if m_next ob \<noteq> Some end
               then MaybeDelete_free (h(c := None)) end (m_next ob) (deleted @ [c])
               else Some (Inr (h(c := None), deleted @ [c]))))"

definition MaybeDelete :: "heap \<Rightarrow> addr \<Rightarrow> (error + heap \<times> addr list) option" where
  "MaybeDelete h this =
     (case MaybeDelete_check h this (Some this) of
        None \<Rightarrow> None
      | Some (Inl e) \<Rightarrow> Some (Inl e)
      | Some (Inr False) \<Rightarrow> Some (Inr (h, []))
      | Some (Inr True) \<Rightarrow> MaybeDelete_free h this (Some this) [])"

section \<open>Example stores\<close>

text \<open>
  \<open>mk_object c t n\<close> is a fresh object (not disposed, not collecting) with count
  \<open>c\<close>, interface id \<open>t\<close> and successor \<open>n\<close>.
\<close>

definition mk_object :: "32 word \<Rightarrow> 16 word \<Rightarrow> addr \<Rightarrow> object" where
  "mk_object c t n =
     \<lparr>m_count = c, m_iid = t, m_disposed = False, m_collecting = False, m_next = Some n\<rparr>"

text \<open>Objects X (address 0) and Y (address 1) aggregated, with the given counts.\<close>

definition heap_XY :: "32 word \<Rightarrow> 32 word \<Rightarrow> heap" where
  "heap_XY cx cy = map_of [(0, mk_object cx 2 1), (1, mk_object cy 3 0)]"

section \<open>The interface-id tree\<close>

text \<open>
  \<open>IidTree\<close> keeps the parent of each interface id in the vector \<open>m_parents\<close>, indexed
  by the 16-bit id.  \<open>object_iid\<close> is the value of \<open>Object::iid ()\<close>, the id that
  \<open>MakeObjectInterfaceId\<close> allocated for the base class and made its own parent.
\<close>

record registry =
  m_parents :: "16 word list"
  object_iid :: "16 word"

definition LookupParent :: "registry \<Rightarrow> 16 word \<Rightarrow> error + 16 word" where
  "LookupParent reg child =
     (if unat child < length (m_parents reg)
      then Inr (m_parents reg ! unat child)
      else Inl AssertionFailed)"

text \<open>
  \<open>type_chain reg t cs\<close>: walking the parent table from \<open>t\<close> meets the ids \<open>cs\<close>, in
  this order and all inside the table, and then the id of the base class.  So \<open>cs\<close>
  is \<open>t\<close> with its ancestors, the root excluded, and \<open>cs @ [object_iid reg]\<close> is
  \<open>t\<close> with all its ancestors.
\<close>

fun type_chain :: "registry \<Rightarrow> 16 word \<Rightarrow> 16 word list \<Rightarrow> bool" where
  "type_chain reg t [] = (t = object_iid reg)"
| "type_chain reg t (c # cs) =
     (t = c \<and> c \<noteq> object_iid reg \<and> unat c < length (m_parents reg) \<and>
      type_chain reg (m_parents reg ! unat c) cs)"

definition ring_count :: "heap \<Rightarrow> addr list \<Rightarrow> 32 word" where
  "ring_count h xs = sum_list (map (count_of h) xs)"

section \<open>\<open>Object::DoQueryInterface\<close>\<close>

text \<open>
  The inner while loop: climb from \<open>cur\<close> until the requested id or the id of the base
  class is met.
\<close>

partial_function (option) DoQueryInterface_up ::
  "registry \<Rightarrow> 16 word \<Rightarrow> 16 word \<Rightarrow> (error + 16 word) option" where
  "DoQueryInterface_up reg iid cur =
     (if cur \<noteq> iid \<and> cur \<noteq> object_iid reg
      then (case LookupParent reg cur of
              Inl e \<Rightarrow> Some (Inl e)
            | Inr parent \<Rightarrow> DoQueryInterface_up reg iid parent)
      else Some (Inr cur))"

text \<open>The do-while loop over the aggregate; the result is the pointer returned.\<close>

partial_function (option) DoQueryInterface_loop ::
  "registry \<Rightarrow> heap \<Rightarrow> addr \<Rightarrow> 16 word \<Rightarrow> addr option \<Rightarrow> (error + addr option) option" where
  "DoQueryInterface_loop reg h this iid currentObject =
     (case currentObject of
        None \<Rightarrow> Some (Inl AssertionFailed)
      | Some c \<Rightarrow>
          (case h c of
             None \<Rightarrow> Some (Inl InvalidPointer)
           | Some ob \<Rightarrow>
               (case DoQueryInterface_up reg iid (m_iid ob) of
                  None \<Rightarrow> None
                | Some (Inl e) \<Rightarrow> Some (Inl e)
                | Some (Inr cur) \<Rightarrow>
                    if cur = iid then Some (Inr (Some c))
                    else if m_next ob \<noteq> Some this
                    then DoQueryInterface_loop reg h this iid (m_next ob)
                    else Some (Inr None))))"

definition DoQueryInterface ::
  "registry \<Rightarrow> heap \<Rightarrow> addr \<Rightarrow> 16 word \<Rightarrow> (error + addr option) option" where
  "DoQueryInterface reg h this iid =
     (case CheckLoose h this of
        None \<Rightarrow> None
      | Some (Inl e) \<Rightarrow> Some (Inl e)
      | Some (Inr live) \<Rightarrow>
          if live then DoQueryInterface_loop reg h this iid (Some this)
          else Some (Inl AssertionFailed))"

text \<open>
  The interface ids of the self test: \<open>Object\<close> is 1, \<open>BaseA\<close> 2, \<open>DerivedA\<close> 3,
  \<open>BaseB\<close> 4, \<open>DerivedB\<close> 5; entry 0 of the table is never assigned.
\<close>

definition test_registry :: registry where
  "test_registry = \<lparr>m_parents = [0, 1, 1, 2, 1, 4], object_iid = 1\<rparr>"

text \<open>A \<open>DerivedA\<close> at address 0 aggregated with a \<open>BaseB\<close> at address 1.\<close>

definition heap_AB :: heap where
  "heap_AB = map_of [(0, mk_object 1 3 1), (1, mk_object 1 4 0)]"

definition chain_AB :: "addr \<Rightarrow> 16 word list" where
  "chain_AB x = (if x = 0 then [3, 2] else [4])"

section \<open>\<open>Object::AddInterface\<close>\<close>

text \<open>\<open>NS_ASSERT (CheckLoose ())\<close> on the object \<open>x\<close>, followed by \<open>rest\<close>.\<close>

definition assert_CheckLoose ::
  "heap \<Rightarrow> addr \<Rightarrow> (error + 'a) option \<Rightarrow> (error + 'a) option" where
  "assert_CheckLoose h x rest =
     (case CheckLoose h x of
        None \<Rightarrow> None
      | Some (Inl e) \<Rightarrow> Some (Inl e)
      | Some (Inr live) \<Rightarrow> if live then rest else Some (Inl AssertionFailed))"



section \<open>\<open>Object::Dispose\<close>\<close>

text \<open>
  \<open>Object::DoDispose\<close>, the teardown hook as the base class has it: one assertion.
\<close>

definition DoDispose :: "object \<Rightarrow> error + unit" where
  "DoDispose ob = (if m_disposed ob then Inl AssertionFailed else Inr ())"

text \<open>
  The do-while loop of \<open>Dispose\<close>.  The last argument lists the objects whose teardown
  hook has been called so far; the result pairs the outcome (the new store, or the
  error that stopped the program) with the hooks called up to then.
\<close>

partial_function (option) Dispose_loop ::
  "heap \<Rightarrow> addr \<Rightarrow> addr option \<Rightarrow> addr list \<Rightarrow> ((error + heap) \<times> addr list) option" where
  "Dispose_loop h this current hooks =
     (case current of
        None \<Rightarrow> Some (Inl AssertionFailed, hooks)
      | Some c \<Rightarrow>
          (case h c of
             None \<Rightarrow> Some (Inl InvalidPointer, hooks)
           | Some ob \<Rightarrow>
               if m_disposed ob then Some (Inl AssertionFailed, hooks)
               else
                 (case DoDispose ob of
                    Inl e \<Rightarrow> Some (Inl e, hooks @ [c])
                  | Inr u \<Rightarrow>
                      if m_next ob \<noteq> Some this
                      then Dispose_loop (h(c \<mapsto> ob\<lparr>m_disposed := True\<rparr>)) this (m_next ob)
                             (hooks @ [c])
                      else Some (Inr (h(c \<mapsto> ob\<lparr>m_disposed := True\<rparr>)), hooks @ [c]))))"

definition Dispose :: "heap \<Rightarrow> addr \<Rightarrow> ((error + heap) \<times> addr list) option" where
  "Dispose h this = Dispose_loop h this (Some this) []"

text \<open>The store \<open>h\<close> with the disposed flag of every object of \<open>xs\<close> set.\<close>

definition mark_disposed :: "heap \<Rightarrow> addr list \<Rightarrow> heap" where
  "mark_disposed h xs =
     (\<lambda>x. if x \<in> set xs then map_option (\<lambda>ob. ob\<lparr>m_disposed := True\<rparr>) (h x) else h x)"

text \<open>A ring of three objects, none disposed.\<close>

definition heap_three :: heap where
  "heap_three = map_of [(0, mk_object 1 2 1), (1, mk_object 1 4 2), (2, mk_object 1 1 0)]"

section \<open>Trace sources of an aggregate\<close>

text \<open>
  \<open>IidManager\<close> is a \<open>UidManager\<close>, a class of \<open>uid-manager.h\<close>; its two lookups
  are parameters of the model.  Uids are 32-bit.
\<close>

record iid_manager =
  LookupByName :: "string \<Rightarrow> 32 word"
  LookupByUid :: "32 word \<Rightarrow> string"

definition GetName :: "iid_manager \<Rightarrow> 16 word \<Rightarrow> string" where
  "GetName mgr iid = LookupByUid mgr (ucast iid)"

definition InterfaceId_LookupByName :: "iid_manager \<Rightarrow> string \<Rightarrow> error + 16 word" where
  "InterfaceId_LookupByName mgr name =
     (let uid = LookupByName mgr name
      in if uid \<noteq> 0 \<and> uid \<le> 0xffff then Inr (ucast uid) else Inl AssertionFailed)"

text \<open>
  The loop that opens both \<open>DoCollectSources\<close> and \<open>DoTraceAll\<close>: \<open>Inr True\<close> when a
  member with \<open>m_collecting\<close> set is met (the function returns), \<open>Inr False\<close> when the
  loop comes back to \<open>this\<close>.
\<close>

partial_function (option) collecting_loop ::
  "heap \<Rightarrow> addr \<Rightarrow> addr option \<Rightarrow> (error + bool) option" where
  "collecting_loop h this current =
     (case current of
        None \<Rightarrow> Some (Inl InvalidPointer)
      | Some c \<Rightarrow>
          (case h c of
             None \<Rightarrow> Some (Inl InvalidPointer)
           | Some ob \<Rightarrow>
               if m_collecting ob then Some (Inr True)
               else if m_next ob \<noteq> Some this
               then collecting_loop h this (m_next ob)
               else Some (Inr False)))"

subsection \<open>\<open>Object::DoCollectSources\<close>\<close>

text \<open>
  \<open>current->GetTraceResolver ()->CollectSources (fullpath, context, collection)\<close> is a
  virtual call: the parameter \<open>resolver\<close> stands for it.  It gets the object, the path
  and the state, which is the store together with whatever else resolvers act on (the
  collection), and may fail, or not return.

  The inner while loop, over the interface id of \<open>current\<close> and its ancestors:
\<close>

partial_function (option) DoCollectSources_up ::
  "(addr \<Rightarrow> string \<Rightarrow> heap \<times> 'x \<Rightarrow> (error + heap \<times> 'x) option) \<Rightarrow>
   registry \<Rightarrow> iid_manager \<Rightarrow> string \<Rightarrow> addr \<Rightarrow> 16 word \<Rightarrow> heap \<times> 'x \<Rightarrow>
   (error + heap \<times> 'x) option" where
  "DoCollectSources_up resolver reg mgr path current cur s =
     (if cur \<noteq> object_iid reg
      then (case resolver current (path @ ''/$'' @ GetName mgr cur) s of
              None \<Rightarrow> None
            | Some (Inl e) \<Rightarrow> Some (Inl e)
            | Some (Inr s') \<Rightarrow>
                (case LookupParent reg cur of
                   Inl e \<Rightarrow> Some (Inl e)
                 | Inr parent \<Rightarrow> DoCollectSources_up resolver reg mgr path current parent s'))
      else Some (Inr s))"

text \<open>The outer while loop, which starts at the successor of \<open>this\<close>:\<close>

partial_function (option) DoCollectSources_walk ::
  "(addr \<Rightarrow> string \<Rightarrow> heap \<times> 'x \<Rightarrow> (error + heap \<times> 'x) option) \<Rightarrow>
   registry \<Rightarrow> iid_manager \<Rightarrow> string \<Rightarrow> addr \<Rightarrow> addr option \<Rightarrow> heap \<times> 'x \<Rightarrow>
   (error + heap \<times> 'x) option" where
  "DoCollectSources_walk resolver reg mgr path this current s =
     (if current \<noteq> Some this
      then (case current of
              None \<Rightarrow> Some (Inl AssertionFailed)
            | Some c \<Rightarrow>
                (case fst s c of
                   None \<Rightarrow> Some (Inl InvalidPointer)
                 | Some ob \<Rightarrow>
                     (case DoCollectSources_up resolver reg mgr path c (m_iid ob) s of
                        None \<Rightarrow> None
                      | Some (Inl e) \<Rightarrow> Some (Inl e)
                      | Some (Inr s') \<Rightarrow>
                          (case fst s' c of
                             None \<Rightarrow> Some (Inl InvalidPointer)
                           | Some ob' \<Rightarrow>
                               DoCollectSources_walk resolver reg mgr path this
                                 (m_next ob') s'))))
      else Some (Inr s))"

definition DoCollectSources ::
  "(addr \<Rightarrow> string \<Rightarrow> heap \<times> 'x \<Rightarrow> (error + heap \<times> 'x) option) \<Rightarrow>
   registry \<Rightarrow> iid_manager \<Rightarrow> addr \<Rightarrow> string \<Rightarrow> heap \<times> 'x \<Rightarrow>
   (error + heap \<times> 'x) option" where
  "DoCollectSources resolver reg mgr this path s =
     (case collecting_loop (fst s) this (Some this) of
        None \<Rightarrow> None
      | Some (Inl e) \<Rightarrow> Some (Inl e)
      | Some (Inr busy) \<Rightarrow>
          if busy then Some (Inr s)
          else
            (case fst s this of
               None \<Rightarrow> Some (Inl InvalidPointer)
             | Some t \<Rightarrow>
                 (case DoCollectSources_walk resolver reg mgr path this (m_next t)
                         ((fst s)(this \<mapsto> t\<lparr>m_collecting := True\<rparr>), snd s) of
                    None \<Rightarrow> None
                  | Some (Inl e) \<Rightarrow> Some (Inl e)
                  | Some (Inr s2) \<Rightarrow>
                      (case fst s2 this of
                         None \<Rightarrow> Some (Inl InvalidPointer)
                       | Some t2 \<Rightarrow>
                           Some (Inr ((fst s2)(this \<mapsto> t2\<lparr>m_collecting := False\<rparr>),
                                      snd s2))))))"

subsection \<open>\<open>Object::DoTraceAll\<close>\<close>

text \<open>
  Here \<open>resolver\<close> stands for \<open>current->GetTraceResolver ()->TraceAll (os, context)\<close>.
\<close>

partial_function (option) DoTraceAll_walk ::
  "(addr \<Rightarrow> heap \<times> 'x \<Rightarrow> (error + heap \<times> 'x) option) \<Rightarrow>
   addr \<Rightarrow> addr option \<Rightarrow> heap \<times> 'x \<Rightarrow> (error + heap \<times> 'x) option" where
  "DoTraceAll_walk resolver this current s =
     (if current \<noteq> Some this
      then (case current of
              None \<Rightarrow> Some (Inl AssertionFailed)
            | Some c \<Rightarrow>
                (case fst s c of
                   None \<Rightarrow> Some (Inl InvalidPointer)
                 | Some ob \<Rightarrow>
                     (case resolver c s of
                        None \<Rightarrow> None
                      | Some (Inl e) \<Rightarrow> Some (Inl e)
                      | Some (Inr s') \<Rightarrow>
                          (case fst s' c of
                             None \<Rightarrow> Some (Inl InvalidPointer)
                           | Some ob' \<Rightarrow> DoTraceAll_walk resolver this (m_next ob') s'))))
      else Some (Inr s))"

definition DoTraceAll ::
  "(addr \<Rightarrow> heap \<times> 'x \<Rightarrow> (error + heap \<times> 'x) option) \<Rightarrow>
   addr \<Rightarrow> heap \<times> 'x \<Rightarrow> (error + heap \<times> 'x) option" where
  "DoTraceAll resolver this s =
     (case collecting_loop (fst s) this (Some this) of
        None \<Rightarrow> None
      | Some (Inl e) \<Rightarrow> Some (Inl e)
      | Some (Inr busy) \<Rightarrow>
          if busy then Some (Inr s)
          else
            (case fst s this of
               None \<Rightarrow> Some (Inl InvalidPointer)
             | Some t \<Rightarrow>
                 (case DoTraceAll_walk resolver this (m_next t)
                         ((fst s)(this \<mapsto> t\<lparr>m_collecting := True\<rparr>), snd s) of
                    None \<Rightarrow> None
                  | Some (Inl e) \<Rightarrow> Some (Inl e)
                  | Some (Inr s2) \<Rightarrow>
                      (case fst s2 this of
                         None \<Rightarrow> Some (Inl InvalidPointer)
                       | Some t2 \<Rightarrow>
                           Some (Inr ((fst s2)(this \<mapsto> t2\<lparr>m_collecting := False\<rparr>),
                                      snd s2))))))"

subsection \<open>The resolver of the base class\<close>

text \<open>
  \<open>Object::GetTraceResolver\<close> asserts \<open>CheckLoose ()\<close> and returns an
  \<open>InterfaceIdTraceResolver\<close> on the object, whose \<open>CollectSources\<close> and \<open>TraceAll\<close>
  call \<open>DoCollectSources\<close> and \<open>DoTraceAll\<close> of that object, which in turn call the
  resolvers of the other members.  The first argument bounds the depth of these nested
  calls: a call that would need more does not return a result.
\<close>

primrec base_CollectSources ::
  "nat \<Rightarrow> registry \<Rightarrow> iid_manager \<Rightarrow> addr \<Rightarrow> string \<Rightarrow> heap \<times> 'x \<Rightarrow>
   (error + heap \<times> 'x) option" where
  "base_CollectSources 0 reg mgr = (\<lambda>this path s. None)"
| "base_CollectSources (Suc n) reg mgr =
     (\<lambda>this path s.
        assert_CheckLoose (fst s) this
          (DoCollectSources (base_CollectSources n reg mgr) reg mgr this path s))"

primrec base_TraceAll ::
  "nat \<Rightarrow> addr \<Rightarrow> heap \<times> 'x \<Rightarrow> (error + heap \<times> 'x) option" where
  "base_TraceAll 0 = (\<lambda>this s. None)"
| "base_TraceAll (Suc n) =
     (\<lambda>this s. assert_CheckLoose (fst s) this (DoTraceAll (base_TraceAll n) this s))"

text \<open>The sequence of calls to member resolvers that the claims speak of.\<close>

definition collect_calls ::
  "iid_manager \<Rightarrow> string \<Rightarrow> (addr \<Rightarrow> 16 word list) \<Rightarrow> addr list \<Rightarrow> (addr \<times> string) list" where
  "collect_calls mgr path chain ys =
     concat (map (\<lambda>m. map (\<lambda>t. (m, path @ ''/$'' @ GetName mgr t)) (chain m)) ys)"

text \<open>Names of the self test's interface ids.\<close>

definition test_manager :: iid_manager where
  "test_manager =
     \<lparr>LookupByName = (\<lambda>n. if n = ''Object'' then 1 else if n = ''BaseA'' then 2
                          else if n = ''DerivedA'' then 3 else if n = ''BaseB'' then 4
                          else if n = ''DerivedB'' then 5 else 0),
      LookupByUid = (\<lambda>u. if u = 1 then ''Object'' else if u = 2 then ''BaseA''
                         else if u = 3 then ''DerivedA'' else if u = 4 then ''BaseB''
                         else if u = 5 then ''DerivedB'' else [])\<rparr>"

text \<open>
  Member resolvers that only record that they were called, and return: the first for
  \<open>CollectSources\<close> (object and path), the second for \<open>TraceAll\<close> (object).
\<close>

definition recording_CollectSources ::
  "addr \<Rightarrow> string \<Rightarrow> heap \<times> (addr \<times> string) list \<Rightarrow>
   (error + heap \<times> (addr \<times> string) list) option" where
  "recording_CollectSources c p s = Some (Inr (fst s, snd s @ [(c, p)]))"

definition recording_TraceAll ::
  "addr \<Rightarrow> heap \<times> addr list \<Rightarrow> (error + heap \<times> addr list) option" where
  "recording_TraceAll c s = Some (Inr (fst s, snd s @ [c]))"

text \<open>
  Member resolvers that return at once when \<open>m_collecting\<close> of the object \<open>a\<close> is
  set, and never return otherwise.
\<close>

definition guarded_CollectSources ::
  "addr \<Rightarrow> addr \<Rightarrow> string \<Rightarrow> heap \<times> 'x \<Rightarrow> (error + heap \<times> 'x) option" where
  "guarded_CollectSources a c p s = (if collecting_of (fst s) a then Some (Inr s) else None)"

definition guarded_TraceAll ::
  "addr \<Rightarrow> addr \<Rightarrow> heap \<times> 'x \<Rightarrow> (error + heap \<times> 'x) option" where
  "guarded_TraceAll a c s = (if collecting_of (fst s) a then Some (Inr s) else None)"

text \<open>
  Member resolvers that record, with their call, whether \<open>m_collecting\<close> of the object
  \<open>a\<close> is set in the store they are called on, and return.
\<close>

definition observing_CollectSources ::
  "addr \<Rightarrow> addr \<Rightarrow> string \<Rightarrow> heap \<times> (addr \<times> string \<times> bool) list \<Rightarrow>
   (error + heap \<times> (addr \<times> string \<times> bool) list) option" where
  "observing_CollectSources a c p s =
     Some (Inr (fst s, snd s @ [(c, p, collecting_of (fst s) a)]))"

definition observing_TraceAll ::
  "addr \<Rightarrow> addr \<Rightarrow> heap \<times> (addr \<times> bool) list \<Rightarrow>
   (error + heap \<times> (addr \<times> bool) list) option" where
  "observing_TraceAll a c s = Some (Inr (fst s, snd s @ [(c, collecting_of (fst s) a)]))"

text \<open>The aggregate \<open>heap_AB\<close> while a traversal started at object 1 is in progress.\<close>

definition heap_AB_busy :: heap where
  "heap_AB_busy =
     map_of [(0, mk_object 1 3 1), (1, (mk_object 1 4 0)\<lparr>m_collecting := True\<rparr>)]"

section \<open>The resolver that selects an interface\<close>

text \<open>
  Modelled from the spec: \<open>TraceResolver::GetElement\<close> and \<open>TraceResolver::GetSubpath\<close>
  belong to the base class \<open>TraceResolver\<close> of \<open>trace-resolver.h\<close>, which
  \<open>object.cc\<close> only includes.  A path is a sequence of elements each introduced by
  \<open>/\<close>; the element is what stands between the leading \<open>/\<close> and the next one, the
  subpath is the rest from that next \<open>/\<close> on.
\<close>

definition GetElement :: "string \<Rightarrow> string" where
  "GetElement path = takeWhile (\<lambda>c. c \<noteq> CHR ''/'') (drop 1 path)"

definition GetSubpath :: "string \<Rightarrow> string" where
  "GetSubpath path = dropWhile (\<lambda>c. c \<noteq> CHR ''/'') (drop 1 path)"

text \<open>
  \<open>InterfaceIdTraceResolver::ParseForInterface\<close>: \<open>element.find ("$")\<close> is 0 exactly
  when the element starts with a dollar sign; \<open>QueryInterface<Object>\<close> on the
  aggregate is \<open>DoQueryInterface\<close>.
\<close>

definition ParseForInterface ::
  "registry \<Rightarrow> iid_manager \<Rightarrow> heap \<Rightarrow> addr \<Rightarrow> string \<Rightarrow> (error + addr option) option" where
  "ParseForInterface reg mgr h m_aggregate path =
     (let element = GetElement path
      in if take 1 element \<noteq> ''$'' then Some (Inr None)
         else (let interfaceName = drop 1 element
               in case InterfaceId_LookupByName mgr interfaceName of
                    Inl e \<Rightarrow> Some (Inl e)
                  | Inr interfaceId \<Rightarrow> DoQueryInterface reg h m_aggregate interfaceId))"

text \<open>
  \<open>InterfaceIdTraceResolver::Connect\<close>; \<open>resolver\<close> stands for the virtual call
  \<open>interface->GetTraceResolver ()->Connect (subpath, cb, context)\<close>, acting on the store
  and on whatever holds the connections.
\<close>

definition Connect ::
  "(addr \<Rightarrow> string \<Rightarrow> heap \<times> 'x \<Rightarrow> (error + heap \<times> 'x) option) \<Rightarrow>
   registry \<Rightarrow> iid_manager \<Rightarrow> addr \<Rightarrow> string \<Rightarrow> heap \<times> 'x \<Rightarrow>
   (error + heap \<times> 'x) option" where
  "Connect resolver reg mgr m_aggregate path s =
     (case ParseForInterface reg mgr (fst s) m_aggregate path of
        None \<Rightarrow> None
      | Some (Inl e) \<Rightarrow> Some (Inl e)
      | Some (Inr None) \<Rightarrow> Some (Inr s)
      | Some (Inr (Some interface)) \<Rightarrow> resolver interface (GetSubpath path) s)"

text \<open>
  \<open>Object::TraceDisconnect\<close>: the assertion, then the virtual call
  \<open>GetTraceResolver ()->Disconnect (path, cb)\<close>, for which \<open>resolver\<close> stands.
\<close>

definition TraceDisconnect ::
  "(addr \<Rightarrow> string \<Rightarrow> heap \<times> 'x \<Rightarrow> (error + heap \<times> 'x) option) \<Rightarrow>
   addr \<Rightarrow> string \<Rightarrow> heap \<times> 'x \<Rightarrow> (error + heap \<times> 'x) option" where
  "TraceDisconnect resolver this path s =
     assert_CheckLoose (fst s) this (resolver this path s)"

definition Disconnect ::
  "(addr \<Rightarrow> string \<Rightarrow> heap \<times> 'x \<Rightarrow> (error + heap \<times> 'x) option) \<Rightarrow>
   registry \<Rightarrow> iid_manager \<Rightarrow> addr \<Rightarrow> string \<Rightarrow> heap \<times> 'x \<Rightarrow>
   (error + heap \<times> 'x) option" where
  "Disconnect resolver reg mgr m_aggregate path s =
     (case ParseForInterface reg mgr (fst s) m_aggregate path of
        None \<Rightarrow> None
      | Some (Inl e) \<Rightarrow> Some (Inl e)
      | Some (Inr None) \<Rightarrow> Some (Inr s)
      | Some (Inr (Some interface)) \<Rightarrow> TraceDisconnect resolver interface (GetSubpath path) s)"

section \<open>Attribute accessors\<close>

text \<open>
  \<open>src/core/attribute-accessor-helper.h\<close>.  An \<open>ObjectBase *\<close> points to an object
  that has a dynamic class and member variables; the accessors of one attribute only
  touch members of one type \<open>U\<close>, so the members are a function from member pointers
  \<open>'f\<close> to values \<open>'u\<close>.  A null pointer is \<open>None\<close>.
\<close>

record ('c, 'f, 'u) object_base =
  dyn_class :: 'c
  members :: "'f \<Rightarrow> 'u"

text \<open>
  Modelled from the spec: \<open>Attribute\<close>, of \<open>attribute.h\<close> which the header only
  includes, is the boxed value, a type-erased container holding a concrete typed value
  that supports a checked downcast to a concrete type.  The value object has a dynamic
  class and contents; an empty handle is \<open>None\<close>.
\<close>

record ('vc, 'r) attribute_value =
  value_class :: 'vc
  contents :: 'r

text \<open>
  The run-time type information that \<open>dynamic_cast\<close> and \<open>DynCast\<close> consult:
  which class derives from which.
\<close>

record ('c, 'vc) rtti =
  object_is_a :: "'c \<Rightarrow> 'c \<Rightarrow> bool"
  value_is_a :: "'vc \<Rightarrow> 'vc \<Rightarrow> bool"

definition dynamic_cast ::
  "('c, 'vc) rtti \<Rightarrow> 'c \<Rightarrow> ('c, 'f, 'u) object_base option \<Rightarrow> ('c, 'f, 'u) object_base option" where
  "dynamic_cast ti T object =
     (case object of
        None \<Rightarrow> None
      | Some ob \<Rightarrow> if object_is_a ti (dyn_class ob) T then Some ob else None)"

definition DynCast ::
  "('c, 'vc) rtti \<Rightarrow> 'vc \<Rightarrow> ('vc, 'r) attribute_value option \<Rightarrow> ('vc, 'r) attribute_value option" where
  "DynCast ti U val =
     (case val of
        None \<Rightarrow> None
      | Some v \<Rightarrow> if value_is_a ti (value_class v) U then Some v else None)"

text \<open>
  What \<open>MakeAccessorHelper\<close> is given: a pointer to a member variable, a getter, a
  setter, or a setter and a getter (given in either order, which
  \<open>DoMakeAccessorHelperTwo\<close> normalises).
\<close>

datatype ('f, 'u) binding =
    MemberVariable 'f
  | GetterMethod "('f \<Rightarrow> 'u) \<Rightarrow> 'u"
  | SetterMethod "'u \<Rightarrow> ('f \<Rightarrow> 'u) \<Rightarrow> ('f \<Rightarrow> 'u)"
  | SetterGetter "'u \<Rightarrow> ('f \<Rightarrow> 'u) \<Rightarrow> ('f \<Rightarrow> 'u)" "('f \<Rightarrow> 'u) \<Rightarrow> 'u"

text \<open>
  An accessor: the template arguments \<open>T\<close> (owner class) and \<open>V\<close> (class of the boxed
  value), the conversions \<open>U (v->Get ())\<close> and \<open>v->Set (x)\<close> between the contents of a
  \<open>V\<close> and the type \<open>U\<close>, and what is bound.
\<close>

record ('c, 'vc, 'r, 'f, 'u) accessor =
  owner_class :: 'c
  box_class :: 'vc
  of_box :: "'r \<Rightarrow> 'u"
  to_box :: "'u \<Rightarrow> 'r"
  bound :: "('f, 'u) binding"

text \<open>\<open>DoSet\<close> and \<open>DoGet\<close> of the four local classes.\<close>

fun DoSet :: "('f, 'u) binding \<Rightarrow> ('r \<Rightarrow> 'u) \<Rightarrow> ('f \<Rightarrow> 'u) \<Rightarrow> 'r \<Rightarrow> bool \<times> ('f \<Rightarrow> 'u)" where
  "DoSet (MemberVariable m) conv obj v = (True, obj(m := conv v))"
| "DoSet (GetterMethod getter) conv obj v = (False, obj)"
| "DoSet (SetterMethod setter) conv obj v = (True, setter (conv v) obj)"
| "DoSet (SetterGetter setter getter) conv obj v = (True, setter (conv v) obj)"

fun DoGet :: "('f, 'u) binding \<Rightarrow> ('u \<Rightarrow> 'r) \<Rightarrow> ('f \<Rightarrow> 'u) \<Rightarrow> 'r \<Rightarrow> bool \<times> 'r" where
  "DoGet (MemberVariable m) conv obj v = (True, conv (obj m))"
| "DoGet (GetterMethod getter) conv obj v = (True, conv (getter obj))"
| "DoGet (SetterMethod setter) conv obj v = (False, v)"
| "DoGet (SetterGetter setter getter) conv obj v = (True, conv (getter obj))"

text \<open>
  \<open>AccessorHelper::Set\<close>: the value is cast first, then the object.  The result is the
  boolean returned and the object after the call.
\<close>

definition Set ::
  "('c, 'vc) rtti \<Rightarrow> ('c, 'vc, 'r, 'f, 'u) accessor \<Rightarrow> ('c, 'f, 'u) object_base option \<Rightarrow>
   ('vc, 'r) attribute_value option \<Rightarrow> bool \<times> ('c, 'f, 'u) object_base option" where
  "Set ti acc object val =
     (case DynCast ti (box_class acc) val of
        None \<Rightarrow> (False, object)
      | Some v \<Rightarrow>
          (case dynamic_cast ti (owner_class acc) object of
             None \<Rightarrow> (False, object)
           | Some obj \<Rightarrow>
               (case DoSet (bound acc) (of_box acc) (members obj) (contents v) of
                  (ok, ms) \<Rightarrow> (ok, Some (obj\<lparr>members := ms\<rparr>)))))"

text \<open>
  \<open>AccessorHelper::Get\<close>.  The result is the boolean returned and the boxed value after
  the call.
\<close>

definition Get ::
  "('c, 'vc) rtti \<Rightarrow> ('c, 'vc, 'r, 'f, 'u) accessor \<Rightarrow> ('c, 'f, 'u) object_base option \<Rightarrow>
   ('vc, 'r) attribute_value option \<Rightarrow> bool \<times> ('vc, 'r) attribute_value option" where
  "Get ti acc object val =
     (case DynCast ti (box_class acc) val of
        None \<Rightarrow> (False, val)
      | Some v \<Rightarrow>
          (case dynamic_cast ti (owner_class acc) object of
             None \<Rightarrow> (False, val)
           | Some obj \<Rightarrow>
               (case DoGet (bound acc) (to_box acc) (members obj) (contents v) of
                  (ok, r) \<Rightarrow> (ok, Some (v\<lparr>contents := r\<rparr>)))))"

text \<open>Which bindings have a path to write, and which a path to read.\<close>

fun has_setter :: "('f, 'u) binding \<Rightarrow> bool" where
  "has_setter (GetterMethod getter) = False"
| "has_setter b = True"

fun has_getter :: "('f, 'u) binding \<Rightarrow> bool" where
  "has_getter (SetterMethod setter) = False"
| "has_getter b = True"

text \<open>
  An example: classes are numbered, class 1 derives from class 0 and is the owner;
  the members \<open>''x''\<close> and \<open>''y''\<close> are integers; the boxed value of class 7 holds a
  natural number.
\<close>

definition test_rtti :: "(nat, nat) rtti" where
  "test_rtti = \<lparr>object_is_a = (\<lambda>c T. c = T \<or> (c = 1 \<and> T = 0)), value_is_a = (\<lambda>c U. c = U)\<rparr>"

definition x_accessor :: "(nat, nat, nat, string, int) accessor" where
  "x_accessor = \<lparr>owner_class = 1, box_class = 7, of_box = int, to_box = nat,
                 bound = MemberVariable ''x''\<rparr>"

definition x_getter :: "(nat, nat, nat, string, int) accessor" where
  "x_getter = \<lparr>owner_class = 1, box_class = 7, of_box = int, to_box = nat,
               bound = GetterMethod (\<lambda>ms. ms ''x'')\<rparr>"

definition test_object :: "(nat, string, int) object_base" where
  "test_object = \<lparr>dyn_class = 1, members = (\<lambda>f. 0)\<rparr>"

definition box7 :: "nat \<Rightarrow> (nat, nat) attribute_value" where
  "box7 n = \<lparr>value_class = 7, contents = n\<rparr>"

section \<open>Facts about paths and rings\<close>

lemma path_upd:
  "x \<notin> set xs \<Longrightarrow> next_path (h(x := v)) p xs q = next_path h p xs q"
  by (induction xs arbitrary: p) (auto split: option.splits)

lemma path_Cons_next:
  "next_path h p (x # y # ys) q \<Longrightarrow> \<exists>ob. h x = Some ob \<and> m_next ob = Some y \<and> next_path h y (y # ys) q"
  by (auto split: option.splits)

lemma path_last:
  "next_path h p [x] q \<Longrightarrow> p = x \<and> (\<exists>ob. h x = Some ob \<and> m_next ob = Some q)"
  by (auto split: option.splits)

lemma path_hd: "next_path h p (x # xs) q \<Longrightarrow> p = x"
  by simp

lemma ring_hd: "ring h a xs \<Longrightarrow> \<exists>ys. xs = a # ys \<and> a \<notin> set ys \<and> distinct ys"
  by (cases xs) (auto simp: ring_def)

section \<open>MaybeDelete on a ring\<close>

lemma MaybeDelete_check_path:
  "next_path h p (y # ys) a \<Longrightarrow> a \<notin> set ys \<Longrightarrow>
   MaybeDelete_check h a (Some p) = Some (Inr (\<forall>x \<in> set (y # ys). count_of h x = 0))"
proof (induction ys arbitrary: p y)
  case Nil
  then show ?case
    by (subst MaybeDelete_check.simps) (auto simp: count_of_def split: option.splits)
next
  case (Cons z zs)
  from Cons.prems(1) obtain ob where ob: "p = y" "h y = Some ob" "m_next ob = Some z"
    and rest: "next_path h z (z # zs) a"
    using path_Cons_next[of h p y z zs a] by auto
  from Cons.prems(2) have za: "z \<noteq> a" and a: "a \<notin> set zs" by auto
  have IH: "MaybeDelete_check h a (Some z) = Some (Inr (\<forall>x \<in> set (z # zs). count_of h x = 0))"
    using Cons.IH[OF rest a] .
  show ?case
    by (subst MaybeDelete_check.simps) (use ob za IH in \<open>auto simp: count_of_def\<close>)
qed

lemma MaybeDelete_free_path:
  "next_path h p (y # ys) a \<Longrightarrow> a \<notin> set ys \<Longrightarrow> distinct (y # ys) \<Longrightarrow>
   MaybeDelete_free h a (Some p) del =
     Some (Inr (\<lambda>x. if x \<in> set (y # ys) then None else h x, del @ y # ys))"
proof (induction ys arbitrary: p y h del)
  case Nil
  then have "h y = None \<Longrightarrow> False" by (auto split: option.splits)
  with Nil show ?case
    by (subst MaybeDelete_free.simps) (auto split: option.splits intro!: ext)
next
  case (Cons z zs)
  from Cons.prems(1) obtain ob where ob: "p = y" "h y = Some ob" "m_next ob = Some z"
    and rest: "next_path h z (z # zs) a"
    using path_Cons_next[of h p y z zs a] by auto
  from Cons.prems(2) have za: "z \<noteq> a" and a: "a \<notin> set zs" by auto
  from Cons.prems(3) have y: "y \<notin> set (z # zs)" and d: "distinct (z # zs)" by auto
  have rest': "next_path (h(y := None)) z (z # zs) a"
    by (subst path_upd[OF y]) (rule rest)
  have IH: "MaybeDelete_free (h(y := None)) a (Some z) (del @ [y]) =
      Some (Inr (\<lambda>x. if x \<in> set (z # zs) then None else (h(y := None)) x, (del @ [y]) @ z # zs))"
    using Cons.IH[OF rest' a d] .
  have eq: "(\<lambda>x. if x \<in> set (z # zs) then None else (h(y := None)) x) =
            (\<lambda>x. if x \<in> set (y # z # zs) then None else h x)"
    by (rule ext) auto
  show ?case
    by (subst MaybeDelete_free.simps) (use ob za IH eq in \<open>simp\<close>)
qed

text \<open>
  C1.  On a ring, \<open>MaybeDelete\<close> called on any member returns normally.  If every
  member has count zero it deletes every member, each exactly once (the deleted list is
  the ring, whose members are distinct), and nothing outside the ring; otherwise it
  deletes nothing and the store, hence every member's count, successor and flags, is
  unchanged.
\<close>

theorem MaybeDelete_ring:
  assumes "ring h a xs"
  shows "MaybeDelete h a =
     Some (Inr (if \<forall>x \<in> set xs. count_of h x = 0
                then (\<lambda>x. if x \<in> set xs then None else h x, xs)
                else (h, [])))"
proof -
  from assms obtain ys where xs: "xs = a # ys" and a: "a \<notin> set ys" and d: "distinct ys"
    using ring_hd by blast
  from assms xs have p: "next_path h a (a # ys) a" by (simp add: ring_def)
  have c: "MaybeDelete_check h a (Some a) = Some (Inr (\<forall>x \<in> set (a # ys). count_of h x = 0))"
    using MaybeDelete_check_path[OF p a] .
  have f: "MaybeDelete_free h a (Some a) [] =
     Some (Inr (\<lambda>x. if x \<in> set (a # ys) then None else h x, [] @ a # ys))"
    using MaybeDelete_free_path[OF p a] a d by simp
  show ?thesis
  proof (cases "\<forall>x \<in> set (a # ys). count_of h x = 0")
    case True
    then have "MaybeDelete_check h a (Some a) = Some (Inr True)"
      using c by simp
    then have "MaybeDelete h a = MaybeDelete_free h a (Some a) []"
      by (simp add: MaybeDelete_def)
    with True f show ?thesis
      by (simp add: xs)
  next
    case False
    then have "MaybeDelete_check h a (Some a) = Some (Inr False)"
      using c by simp
    then have "MaybeDelete h a = Some (Inr (h, []))"
      by (simp add: MaybeDelete_def)
    with False show ?thesis
      by (simp add: xs)
  qed
qed

theorem MaybeDelete_ring_witness:
  "ring (heap_XY 0 1) 0 [0, 1] \<and>
   MaybeDelete (heap_XY 0 1) 0 = Some (Inr (heap_XY 0 1, [])) \<and>
   ring (heap_XY 0 0) 1 [1, 0] \<and>
   MaybeDelete (heap_XY 0 0) 1 =
     Some (Inr (\<lambda>x. if x \<in> set [1, 0] then None else heap_XY 0 0 x, [1, 0]))"
proof -
  have r1: "ring (heap_XY 0 1) 0 [0, 1]"
    by (simp add: ring_def heap_XY_def mk_object_def)
  have r2: "ring (heap_XY 0 0) 1 [1, 0]"
    by (simp add: ring_def heap_XY_def mk_object_def)
  have c1: "\<not> (\<forall>x \<in> set [0, 1]. count_of (heap_XY 0 1) x = 0)"
    by (simp add: count_of_def heap_XY_def mk_object_def)
  have c2: "\<forall>x \<in> set [1, 0]. count_of (heap_XY 0 0) x = 0"
    by (simp add: count_of_def heap_XY_def mk_object_def)
  have m1: "MaybeDelete (heap_XY 0 1) 0 = Some (Inr (heap_XY 0 1, []))"
    using MaybeDelete_ring[OF r1] by (subst (asm) if_not_P[OF c1])
  have m2: "MaybeDelete (heap_XY 0 0) 1 =
     Some (Inr (\<lambda>x. if x \<in> set [1, 0] then None else heap_XY 0 0 x, [1, 0]))"
    using MaybeDelete_ring[OF r2] by (subst (asm) if_P[OF c2])
  show ?thesis
    using r1 r2 m1 m2 by blast
qed

section \<open>CheckLoose on a ring\<close>

lemma CheckLoose_loop_path:
  "next_path h p (y # ys) a \<Longrightarrow> a \<notin> set ys \<Longrightarrow>
   CheckLoose_loop h a (Some p) acc = Some (Inr (acc + ring_count h (y # ys)))"
proof (induction ys arbitrary: p y acc)
  case Nil
  then show ?case
    by (subst CheckLoose_loop.simps)
       (auto simp: count_of_def ring_count_def split: option.splits)
next
  case (Cons z zs)
  from Cons.prems(1) obtain ob where ob: "p = y" "h y = Some ob" "m_next ob = Some z"
    and rest: "next_path h z (z # zs) a"
    using path_Cons_next[of h p y z zs a] by auto
  from Cons.prems(2) have za: "z \<noteq> a" and a: "a \<notin> set zs" by auto
  have IH: "CheckLoose_loop h a (Some z) (acc + m_count ob) =
            Some (Inr (acc + m_count ob + ring_count h (z # zs)))"
    using Cons.IH[OF rest a] .
  have "count_of h y = m_count ob"
    using ob by (simp add: count_of_def)
  then have s: "acc + ring_count h (y # z # zs) = acc + m_count ob + ring_count h (z # zs)"
    by (simp add: ring_count_def add.assoc)
  show ?case
    by (subst CheckLoose_loop.simps) (use ob za IH s in \<open>simp\<close>)
qed

lemma CheckLoose_ring:
  assumes "ring h a xs"
  shows "CheckLoose h a = Some (Inr (ring_count h xs \<noteq> 0))"
proof -
  from assms obtain ys where xs: "xs = a # ys" and a: "a \<notin> set ys"
    using ring_hd by blast
  from assms xs have p: "next_path h a (a # ys) a" by (simp add: ring_def)
  show ?thesis
    unfolding CheckLoose_def CheckLoose_loop_path[OF p a] xs
    by (simp add: word_greater_zero_iff)
qed

section \<open>DoQueryInterface on a ring\<close>

lemma DoQueryInterface_up_chain:
  "type_chain reg t cs \<Longrightarrow>
   DoQueryInterface_up reg iid t = Some (Inr (if iid \<in> set cs then iid else object_iid reg))"
proof (induction cs arbitrary: t)
  case Nil
  then show ?case
    by (subst DoQueryInterface_up.simps) simp
next
  case (Cons c cs)
  then have t: "t = c" "c \<noteq> object_iid reg" "unat c < length (m_parents reg)"
    and rest: "type_chain reg (m_parents reg ! unat c) cs"
    by auto
  note IH = Cons.IH[OF rest]
  show ?case
    by (subst DoQueryInterface_up.simps) (use t IH in \<open>auto simp: LookupParent_def\<close>)
qed

lemma DoQueryInterface_up_match:
  assumes "type_chain reg t cs"
  shows "\<exists>cur. DoQueryInterface_up reg iid t = Some (Inr cur) \<and>
           (cur = iid \<longleftrightarrow> iid \<in> set (cs @ [object_iid reg]))"
  using DoQueryInterface_up_chain[OF assms, of iid] by auto

lemma DoQueryInterface_loop_path:
  "next_path h p (y # ys) a \<Longrightarrow> a \<notin> set ys \<Longrightarrow>
   \<forall>x \<in> set (y # ys). type_chain reg (iid_of h x) (chain x) \<Longrightarrow>
   DoQueryInterface_loop reg h a iid (Some p) =
     Some (Inr (find (\<lambda>x. iid \<in> set (chain x @ [object_iid reg])) (y # ys)))"
proof (induction ys arbitrary: p y)
  case Nil
  from Nil.prems(1) obtain ob where ob: "p = y" "h y = Some ob" "m_next ob = Some a"
    using path_last by blast
  from Nil.prems(3) ob have "type_chain reg (m_iid ob) (chain y)"
    by (simp add: iid_of_def)
  from DoQueryInterface_up_match[OF this, of iid] obtain cur where
    cur: "DoQueryInterface_up reg iid (m_iid ob) = Some (Inr cur)"
         "cur = iid \<longleftrightarrow> iid \<in> set (chain y @ [object_iid reg])"
    by blast
  show ?case
    by (subst DoQueryInterface_loop.simps) (use ob cur in \<open>simp\<close>)
next
  case (Cons z zs)
  from Cons.prems(1) obtain ob where ob: "p = y" "h y = Some ob" "m_next ob = Some z"
    and rest: "next_path h z (z # zs) a"
    using path_Cons_next[of h p y z zs a] by auto
  from Cons.prems(2) have za: "z \<noteq> a" and a: "a \<notin> set zs" by auto
  from Cons.prems(3) have ch: "\<forall>x \<in> set (z # zs). type_chain reg (iid_of h x) (chain x)"
    by simp
  note IH = Cons.IH[OF rest a ch]
  from Cons.prems(3) ob have "type_chain reg (m_iid ob) (chain y)"
    by (simp add: iid_of_def)
  from DoQueryInterface_up_match[OF this, of iid] obtain cur where
    cur: "DoQueryInterface_up reg iid (m_iid ob) = Some (Inr cur)"
         "cur = iid \<longleftrightarrow> iid \<in> set (chain y @ [object_iid reg])"
    by blast
  show ?case
    by (subst DoQueryInterface_loop.simps) (use ob za cur IH in \<open>simp\<close>)
qed

lemma DoQueryInterface_find:
  assumes "ring h a xs"
    and "ring_count h xs \<noteq> 0"
    and "\<forall>x \<in> set xs. type_chain reg (iid_of h x) (chain x)"
  shows "DoQueryInterface reg h a t =
           Some (Inr (find (\<lambda>x. t \<in> set (chain x @ [object_iid reg])) xs))"
proof -
  from assms(1) obtain ys where xs: "xs = a # ys" and a: "a \<notin> set ys"
    using ring_hd by blast
  from assms(1) xs have p: "next_path h a (a # ys) a" by (simp add: ring_def)
  have live: "CheckLoose h a = Some (Inr True)"
    using CheckLoose_ring[OF assms(1)] assms(2) by simp
  have loop: "DoQueryInterface_loop reg h a t (Some a) =
                Some (Inr (find (\<lambda>x. t \<in> set (chain x @ [object_iid reg])) xs))"
    using DoQueryInterface_loop_path[OF p a, of reg chain t] assms(3) xs by simp
  show ?thesis
    by (simp add: DoQueryInterface_def live loop)
qed

text \<open>
  C3.  On a live ring (the 32-bit sum of the counts is not zero) whose members' interface
  ids each lead to the root through the parent table, \<open>DoQueryInterface\<close> started at
  any member \<open>a\<close> returns the first member, in ring order from \<open>a\<close>, whose id or one of
  whose ancestors is the requested id; it returns null exactly when there is no such
  member; and a request for the id, or an ancestor of the id, of any member is answered
  by a member whose id or ancestor it is.
\<close>

theorem DoQueryInterface_ring:
  assumes "ring h a xs"
    and "ring_count h xs \<noteq> 0"
    and "\<forall>x \<in> set xs. type_chain reg (iid_of h x) (chain x)"
  shows "DoQueryInterface reg h a iid =
           Some (Inr (find (\<lambda>x. iid \<in> set (chain x @ [object_iid reg])) xs)) \<and>
         (DoQueryInterface reg h a iid = Some (Inr None) \<longleftrightarrow>
           (\<forall>x \<in> set xs. iid \<notin> set (chain x @ [object_iid reg]))) \<and>
         (\<forall>x \<in> set xs. \<forall>t \<in> set (chain x @ [object_iid reg]).
           \<exists>y \<in> set xs. DoQueryInterface reg h a t = Some (Inr (Some y)) \<and>
                         t \<in> set (chain y @ [object_iid reg]))"
proof -
  note res = DoQueryInterface_find[OF assms]
  have null: "DoQueryInterface reg h a iid = Some (Inr None) \<longleftrightarrow>
           (\<forall>x \<in> set xs. iid \<notin> set (chain x @ [object_iid reg]))"
    unfolding res by (simp only: option.inject sum.inject find_None_iff) blast
  have found: "\<forall>x \<in> set xs. \<forall>t \<in> set (chain x @ [object_iid reg]).
           \<exists>y \<in> set xs. DoQueryInterface reg h a t = Some (Inr (Some y)) \<and>
                         t \<in> set (chain y @ [object_iid reg])"
  proof (intro ballI)
    fix x t
    assume x: "x \<in> set xs" and t: "t \<in> set (chain x @ [object_iid reg])"
    then have "find (\<lambda>x. t \<in> set (chain x @ [object_iid reg])) xs \<noteq> None"
      by (simp only: find_None_iff) blast
    then obtain y where y: "find (\<lambda>x. t \<in> set (chain x @ [object_iid reg])) xs = Some y"
      by blast
    then have "y \<in> set xs \<and> t \<in> set (chain y @ [object_iid reg])"
      by (auto simp only: find_Some_iff intro: nth_mem)
    with y res[of t] show "\<exists>y \<in> set xs. DoQueryInterface reg h a t = Some (Inr (Some y)) \<and>
                         t \<in> set (chain y @ [object_iid reg])"
      by auto
  qed
  from res[of iid] null found show ?thesis
    by (intro conjI)
qed

theorem DoQueryInterface_ring_witness:
  "ring heap_AB 1 [1, 0] \<and> ring_count heap_AB [1, 0] \<noteq> 0 \<and>
   type_chain test_registry (iid_of heap_AB 1) (chain_AB 1) \<and>
   type_chain test_registry (iid_of heap_AB 0) (chain_AB 0) \<and>
   DoQueryInterface test_registry heap_AB 1 2 = Some (Inr (Some 0)) \<and>
   DoQueryInterface test_registry heap_AB 1 5 = Some (Inr None)"
proof -
  have r: "ring heap_AB 1 [1, 0]"
    by (simp add: ring_def heap_AB_def mk_object_def)
  have l: "ring_count heap_AB [1, 0] \<noteq> 0"
    by (simp add: ring_count_def count_of_def heap_AB_def mk_object_def)
  have c: "\<forall>x \<in> set [1, 0]. type_chain test_registry (iid_of heap_AB x) (chain_AB x)"
    by (simp add: iid_of_def heap_AB_def mk_object_def chain_AB_def test_registry_def)
  have f2: "find (\<lambda>x. (2::16 word) \<in> set (chain_AB x @ [object_iid test_registry])) [1, 0] = Some 0"
    by (simp add: chain_AB_def test_registry_def)
  have f5: "find (\<lambda>x. (5::16 word) \<in> set (chain_AB x @ [object_iid test_registry])) [1, 0] = None"
    by (simp add: chain_AB_def test_registry_def)
  from c have c': "type_chain test_registry (iid_of heap_AB 1) (chain_AB 1)"
    "type_chain test_registry (iid_of heap_AB 0) (chain_AB 0)"
    by simp_all
  from DoQueryInterface_ring[OF r l c, of 2] DoQueryInterface_ring[OF r l c, of 5] r l c'
  show ?thesis
    unfolding f2 f5 by blast
qed

text \<open>
  C10.  On a live ring, \<open>DoQueryInterface\<close> called on a member \<open>a\<close> with the id of the
  base class returns \<open>a\<close> itself: the climb from the id of \<open>a\<close> stops at the root,
  which is the requested id, so the first member examined is the answer.  The id of
  \<open>a\<close> is a registered one: it leads to the root through the parent table.
\<close>

theorem DoQueryInterface_root:
  assumes "ring h a xs"
    and "ring_count h xs \<noteq> 0"
    and "type_chain reg (iid_of h a) cs"
  shows "DoQueryInterface reg h a (object_iid reg) = Some (Inr (Some a))"
proof -
  from assms(1) obtain ys where xs: "xs = a # ys"
    using ring_hd by blast
  from assms(1) xs obtain ob where ob: "h a = Some ob"
    by (auto simp: ring_def split: option.splits)
  have live: "CheckLoose h a = Some (Inr True)"
    using CheckLoose_ring[OF assms(1)] assms(2) by simp
  from assms(3) ob have "type_chain reg (m_iid ob) cs"
    by (simp add: iid_of_def)
  then have up: "DoQueryInterface_up reg (object_iid reg) (m_iid ob) = Some (Inr (object_iid reg))"
    using DoQueryInterface_up_chain[of reg "m_iid ob" cs "object_iid reg"] by simp
  have "DoQueryInterface_loop reg h a (object_iid reg) (Some a) = Some (Inr (Some a))"
    by (subst DoQueryInterface_loop.simps) (simp add: ob up)
  then show ?thesis
    by (simp add: DoQueryInterface_def live)
qed

theorem DoQueryInterface_root_witness:
  "ring heap_AB 1 [1, 0] \<and> ring_count heap_AB [1, 0] \<noteq> 0 \<and>
   type_chain test_registry (iid_of heap_AB 1) [4] \<and>
   DoQueryInterface test_registry heap_AB 1 (object_iid test_registry) = Some (Inr (Some 1))"
proof -
  have r: "ring heap_AB 1 [1, 0]"
    by (simp add: ring_def heap_AB_def mk_object_def)
  have l: "ring_count heap_AB [1, 0] \<noteq> 0"
    by (simp add: ring_count_def count_of_def heap_AB_def mk_object_def)
  have c: "type_chain test_registry (iid_of heap_AB 1) [4]"
    by (simp add: iid_of_def heap_AB_def mk_object_def test_registry_def)
  from DoQueryInterface_root[OF r l c] r l c show ?thesis
    by blast
qed

section \<open>AddInterface on two rings\<close>

lemma next_path_append:
  "next_path h p (xs @ ys) q = (\<exists>m. next_path h p xs m \<and> next_path h m ys q)"
  by (induction xs arbitrary: p) (auto split: option.splits)

lemma path_map_upd:
  "x \<notin> set xs \<Longrightarrow> next_path (h(x \<mapsto> v)) p xs q = next_path h p xs q"
  by (rule path_upd)

lemma ring_split:
  assumes "ring h a (a # ys)"
  obtains ob n where "h a = Some ob" "m_next ob = Some n" "next_path h n ys a"
  using assms by (auto simp: ring_def split: option.splits)



lemma ring_count_cong:
  assumes "\<And>x. count_of h' x = count_of h x"
  shows "ring_count h' xs = ring_count h xs"
proof -
  have "count_of h' = count_of h"
    by (rule ext) (rule assms)
  then show ?thesis
    by (simp add: ring_count_def)
qed

lemma assert_CheckLoose_ring:
  "ring h a xs \<Longrightarrow> ring_count h xs \<noteq> 0 \<Longrightarrow> assert_CheckLoose h a rest = rest"
  by (simp add: assert_CheckLoose_def CheckLoose_ring)




section \<open>Dispose on a ring\<close>

lemma path_allocated:
  "next_path h p xs q \<Longrightarrow> x \<in> set xs \<Longrightarrow> \<exists>ob. h x = Some ob"
  by (induction xs arbitrary: p) (auto split: option.splits)

lemma path_mark_disposed:
  "next_path h p xs q \<Longrightarrow> next_path (mark_disposed h ys) p xs q"
  by (induction xs arbitrary: p) (auto simp: mark_disposed_def split: option.splits)

lemma ring_mark_disposed:
  "ring h a xs \<Longrightarrow> ring (mark_disposed h ys) a xs"
  by (simp add: ring_def path_mark_disposed)

lemma disposed_of_mark:
  "h x = Some ob \<Longrightarrow> x \<in> set xs \<Longrightarrow> disposed_of (mark_disposed h xs) x"
  by (simp add: disposed_of_def mark_disposed_def)

lemma mark_disposed_step:
  "h y = Some ob \<Longrightarrow>
   mark_disposed (h(y \<mapsto> ob\<lparr>m_disposed := True\<rparr>)) zs = mark_disposed h (y # zs)"
  by (rule ext) (auto simp: mark_disposed_def)

lemma Dispose_loop_path:
  "next_path h p (y # ys) a \<Longrightarrow> a \<notin> set ys \<Longrightarrow> distinct (y # ys) \<Longrightarrow>
   Dispose_loop h a (Some p) hooks =
     Some (if \<forall>x \<in> set (y # ys). \<not> disposed_of h x
           then (Inr (mark_disposed h (y # ys)), hooks @ y # ys)
           else (Inl AssertionFailed, hooks @ takeWhile (\<lambda>x. \<not> disposed_of h x) (y # ys)))"
proof (induction ys arbitrary: p y h hooks)
  case Nil
  from Nil.prems(1) obtain ob where ob: "p = y" "h y = Some ob" "m_next ob = Some a"
    using path_last by blast
  have m: "mark_disposed h [y] = h(y \<mapsto> ob\<lparr>m_disposed := True\<rparr>)"
    using ob by (auto simp: mark_disposed_def)
  show ?case
    by (subst Dispose_loop.simps) (use ob m in \<open>simp add: DoDispose_def disposed_of_def\<close>)
next
  case (Cons z zs)
  from Cons.prems(1) obtain ob where ob: "p = y" "h y = Some ob" "m_next ob = Some z"
    and rest: "next_path h z (z # zs) a"
    using path_Cons_next[of h p y z zs a] by auto
  from Cons.prems(2) have za: "z \<noteq> a" and a: "a \<notin> set zs" by auto
  from Cons.prems(3) have y: "y \<notin> set (z # zs)" and d: "distinct (z # zs)" by auto
  show ?case
  proof (cases "m_disposed ob")
    case True
    then have dy: "disposed_of h y"
      using ob by (simp add: disposed_of_def)
    show ?thesis
      by (subst Dispose_loop.simps) (use ob True dy in \<open>simp\<close>)
  next
    case False
    then have dy: "\<not> disposed_of h y"
      using ob by (simp add: disposed_of_def)
    define h1 where "h1 = h(y \<mapsto> ob\<lparr>m_disposed := True\<rparr>)"
    have rest1: "next_path h1 z (z # zs) a"
      unfolding h1_def by (subst path_upd[OF y]) (rule rest)
    have same: "disposed_of h1 x = disposed_of h x" if "x \<in> set (z # zs)" for x
      using that y by (auto simp: h1_def disposed_of_def)
    then have all: "(\<forall>x \<in> set (z # zs). \<not> disposed_of h1 x) = (\<forall>x \<in> set (z # zs). \<not> disposed_of h x)"
      by blast
    have tw: "takeWhile (\<lambda>x. \<not> disposed_of h1 x) (z # zs) =
              takeWhile (\<lambda>x. \<not> disposed_of h x) (z # zs)"
      by (rule takeWhile_cong) (use same in \<open>auto\<close>)
    have mk: "mark_disposed h1 (z # zs) = mark_disposed h (y # z # zs)"
      unfolding h1_def by (rule mark_disposed_step) (rule ob(2))
    have IH: "Dispose_loop h1 a (Some z) (hooks @ [y]) =
       Some (if \<forall>x \<in> set (z # zs). \<not> disposed_of h x
             then (Inr (mark_disposed h (y # z # zs)), (hooks @ [y]) @ z # zs)
             else (Inl AssertionFailed,
                   (hooks @ [y]) @ takeWhile (\<lambda>x. \<not> disposed_of h x) (z # zs)))"
      using Cons.IH[OF rest1 a d, of "hooks @ [y]"] unfolding all tw mk .
    have step: "Dispose_loop h a (Some p) hooks = Dispose_loop h1 a (Some z) (hooks @ [y])"
      by (subst Dispose_loop.simps) (use ob za False in \<open>simp add: DoDispose_def h1_def\<close>)
    show ?thesis
      unfolding step IH using dy by simp
  qed
qed

text \<open>
  C4.  On a ring of \<open>a\<close> with members \<open>xs\<close>: if no member is disposed, \<open>Dispose\<close> on
  \<open>a\<close> calls the teardown hook of each member exactly once (the hooks called are
  \<open>xs\<close>, in ring order) and returns the store with every member marked disposed; a
  second \<open>Dispose\<close> on that store fails its assertion with no hook called.  If some
  member is disposed, \<open>Dispose\<close> fails its assertion, after the hooks of the members
  that come before the first disposed one; if all are disposed, no hook is called.
\<close>

theorem Dispose_ring:
  assumes "ring h a xs"
  shows "((\<forall>x \<in> set xs. \<not> disposed_of h x) \<longrightarrow>
            Dispose h a = Some (Inr (mark_disposed h xs), xs) \<and>
            (\<forall>x \<in> set xs. disposed_of (mark_disposed h xs) x) \<and>
            Dispose (mark_disposed h xs) a = Some (Inl AssertionFailed, [])) \<and>
         ((\<exists>x \<in> set xs. disposed_of h x) \<longrightarrow>
            Dispose h a = Some (Inl AssertionFailed, takeWhile (\<lambda>x. \<not> disposed_of h x) xs)) \<and>
         ((\<forall>x \<in> set xs. disposed_of h x) \<longrightarrow>
            Dispose h a = Some (Inl AssertionFailed, []))"
proof -
  from assms obtain ys where xs: "xs = a # ys" and a: "a \<notin> set ys" and d: "distinct (a # ys)"
    using ring_hd by fastforce
  from assms xs have p: "next_path h a (a # ys) a" by (simp add: ring_def)
  have run: "Dispose h a =
     Some (if \<forall>x \<in> set xs. \<not> disposed_of h x
           then (Inr (mark_disposed h xs), xs)
           else (Inl AssertionFailed, takeWhile (\<lambda>x. \<not> disposed_of h x) xs))"
    unfolding Dispose_def xs using Dispose_loop_path[OF p a d, of "[]"] by simp
  let ?h = "mark_disposed h xs"
  have r': "ring ?h a xs"
    using assms by (rule ring_mark_disposed)
  have alld: "\<forall>x \<in> set xs. disposed_of ?h x"
    using path_allocated[OF p] disposed_of_mark[of h _ _ xs] unfolding xs by blast
  from r' xs have p': "next_path ?h a (a # ys) a" by (simp add: ring_def)
  have "disposed_of ?h a"
    using alld xs by simp
  then have again: "Dispose ?h a = Some (Inl AssertionFailed, [])"
    unfolding Dispose_def using Dispose_loop_path[OF p' a d, of "[]"] by auto
  have all: "Dispose h a = Some (Inl AssertionFailed, [])" if "\<forall>x \<in> set xs. disposed_of h x"
  proof -
    from that have "disposed_of h a" by (simp add: xs)
    then show ?thesis
      unfolding run xs by auto
  qed
  show ?thesis
    using run alld again all by auto
qed

theorem Dispose_ring_witness:
  "ring heap_three 0 [0, 1, 2] \<and> \<not> disposed_of heap_three 0 \<and>
   \<not> disposed_of heap_three 1 \<and> \<not> disposed_of heap_three 2 \<and>
   Dispose heap_three 0 = Some (Inr (mark_disposed heap_three [0, 1, 2]), [0, 1, 2]) \<and>
   Dispose (mark_disposed heap_three [0, 1, 2]) 0 = Some (Inl AssertionFailed, []) \<and>
   ring (mark_disposed heap_three [1]) 0 [0, 1, 2] \<and>
   (\<exists>x \<in> set [0, 1, 2]. disposed_of (mark_disposed heap_three [1]) x) \<and>
   Dispose (mark_disposed heap_three [1]) 0 = Some (Inl AssertionFailed, [0])"
proof -
  have r: "ring heap_three 0 [0, 1, 2]"
    by (simp add: ring_def heap_three_def mk_object_def)
  have n: "\<forall>x \<in> set [0, 1, 2]. \<not> disposed_of heap_three x"
    by (simp add: disposed_of_def heap_three_def mk_object_def)
  have r1: "ring (mark_disposed heap_three [1]) 0 [0, 1, 2]"
    using r by (rule ring_mark_disposed)
  have e: "\<exists>x \<in> set [0, 1, 2]. disposed_of (mark_disposed heap_three [1]) x"
    by (simp add: disposed_of_def mark_disposed_def heap_three_def mk_object_def)
  have t: "takeWhile (\<lambda>x. \<not> disposed_of (mark_disposed heap_three [1]) x) [0, 1, 2] = [0]"
    by (simp add: disposed_of_def mark_disposed_def heap_three_def mk_object_def)
  from n have n': "\<not> disposed_of heap_three 0" "\<not> disposed_of heap_three 1"
    "\<not> disposed_of heap_three 2"
    by simp_all
  from Dispose_ring[OF r] Dispose_ring[OF r1] r n n' r1 e show ?thesis
    unfolding t by blast
qed

section \<open>The collecting guard and the walk over the other members\<close>

lemma next_path_cong_next:
  assumes "\<And>x. map_option m_next (h' x) = map_option m_next (h x)"
  shows "next_path h' p xs q = next_path h p xs q"
proof (induction xs arbitrary: p)
  case Nil
  show ?case by simp
next
  case (Cons x xs)
  from assms[of x] show ?case
    by (cases "h x"; cases "h' x") (auto simp: Cons.IH split: option.splits)
qed

lemma ring_cong_next:
  assumes "\<And>x. map_option m_next (h' x) = map_option m_next (h x)"
  shows "ring h' a xs = ring h a xs"
  by (simp add: ring_def next_path_cong_next[of h' h, OF assms])

lemma ring_set_collecting:
  assumes "h a = Some t"
  shows "ring (h(a \<mapsto> t\<lparr>m_collecting := b\<rparr>)) c xs = ring h c xs"
  by (rule ring_cong_next) (use assms in \<open>simp\<close>)

lemma ring_rotate:
  assumes "ring h a xs" and "c \<in> set xs"
  shows "\<exists>zs. ring h c zs \<and> set zs = set xs \<and> ring_count h zs = ring_count h xs"
proof -
  from assms(2) obtain us vs where xs: "xs = us @ c # vs"
    by (auto dest: split_list)
  from assms(1) have d: "distinct (us @ c # vs)" and p: "next_path h a (us @ c # vs) a"
    by (simp_all add: ring_def xs)
  from p obtain m where m: "next_path h a us m" "next_path h m (c # vs) a"
    unfolding next_path_append by blast
  then have "m = c" by simp
  with m have "next_path h c ((c # vs) @ us) c"
    unfolding next_path_append by blast
  with d have "ring h c (c # vs @ us)"
    by (auto simp: ring_def)
  moreover have "set (c # vs @ us) = set xs"
    by (auto simp: xs)
  moreover have "ring_count h (c # vs @ us) = ring_count h xs"
    by (simp add: xs ring_count_def add.commute add.left_commute)
  ultimately show ?thesis by blast
qed

lemma collecting_loop_path:
  "next_path h p (y # ys) a \<Longrightarrow> a \<notin> set ys \<Longrightarrow>
   collecting_loop h a (Some p) = Some (Inr (\<exists>x \<in> set (y # ys). collecting_of h x))"
proof (induction ys arbitrary: p y)
  case Nil
  then show ?case
    by (subst collecting_loop.simps) (auto simp: collecting_of_def split: option.splits)
next
  case (Cons z zs)
  from Cons.prems(1) obtain ob where ob: "p = y" "h y = Some ob" "m_next ob = Some z"
    and rest: "next_path h z (z # zs) a"
    using path_Cons_next[of h p y z zs a] by auto
  from Cons.prems(2) have za: "z \<noteq> a" and a: "a \<notin> set zs" by auto
  note IH = Cons.IH[OF rest a]
  show ?case
    by (subst collecting_loop.simps) (use ob za IH in \<open>auto simp: collecting_of_def\<close>)
qed

lemma collecting_loop_ring:
  assumes "ring h a xs"
  shows "collecting_loop h a (Some a) = Some (Inr (\<exists>x \<in> set xs. collecting_of h x))"
proof -
  from assms obtain ys where xs: "xs = a # ys" and a: "a \<notin> set ys"
    using ring_hd by blast
  from assms xs have p: "next_path h a (a # ys) a" by (simp add: ring_def)
  show ?thesis
    unfolding xs by (rule collecting_loop_path[OF p a])
qed

lemma DoCollectSources_busy:
  assumes "ring h a xs" and "\<exists>x \<in> set xs. collecting_of h x"
  shows "DoCollectSources resolver reg mgr a path (h, x0) = Some (Inr (h, x0))"
  using assms(2) by (simp add: DoCollectSources_def collecting_loop_ring[OF assms(1)])

lemma DoTraceAll_busy:
  assumes "ring h a xs" and "\<exists>x \<in> set xs. collecting_of h x"
  shows "DoTraceAll resolver a (h, x0) = Some (Inr (h, x0))"
  using assms(2) by (simp add: DoTraceAll_def collecting_loop_ring[OF assms(1)])

lemma DoCollectSources_up_chain:
  assumes "\<And>p x. resolver c p (hg, x) = Some (Inr (hg, F c p x))"
  shows "type_chain reg t cs \<Longrightarrow>
    DoCollectSources_up resolver reg mgr path c t (hg, x0) =
      Some (Inr (hg, foldl (\<lambda>x p. F c p x) x0 (map (\<lambda>t. path @ ''/$'' @ GetName mgr t) cs)))"
proof (induction cs arbitrary: t x0)
  case Nil
  then show ?case
    by (subst DoCollectSources_up.simps) simp
next
  case (Cons u us)
  then have t: "t = u" "u \<noteq> object_iid reg" "unat u < length (m_parents reg)"
    and rest: "type_chain reg (m_parents reg ! unat u) us"
    by auto
  note IH = Cons.IH[OF rest]
  show ?case
    by (subst DoCollectSources_up.simps) (simp add: t assms IH LookupParent_def)
qed

lemma foldl_calls_member:
  "foldl (\<lambda>x (c, p). F c p x) x0 (map (\<lambda>t. (m, g t)) cs) =
   foldl (\<lambda>x p. F m p x) x0 (map g cs)"
  by (induction cs arbitrary: x0) simp_all

lemma collect_calls_Cons:
  "collect_calls mgr path chain (y # ys) =
     map (\<lambda>t. (y, path @ ''/$'' @ GetName mgr t)) (chain y) @ collect_calls mgr path chain ys"
  by (simp add: collect_calls_def)

lemma DoCollectSources_walk_path:
  assumes "\<And>c p x. c \<in> set ys \<Longrightarrow> resolver c p (hg, x) = Some (Inr (hg, F c p x))"
  shows "next_path hg q ys a \<Longrightarrow> a \<notin> set ys \<Longrightarrow>
    \<forall>m \<in> set ys. type_chain reg (iid_of hg m) (chain m) \<Longrightarrow>
    DoCollectSources_walk resolver reg mgr path a (Some q) (hg, x0) =
      Some (Inr (hg, foldl (\<lambda>x (c, p). F c p x) x0 (collect_calls mgr path chain ys)))"
  using assms
proof (induction ys arbitrary: q x0)
  case Nil
  then show ?case
    by (subst DoCollectSources_walk.simps) (simp add: collect_calls_def)
next
  case (Cons y ys)
  from Cons.prems(1) obtain ob n where ob: "q = y" "hg y = Some ob" "m_next ob = Some n"
    and rest: "next_path hg n ys a"
    by (auto split: option.splits)
  from Cons.prems(2) have ya: "y \<noteq> a" and a: "a \<notin> set ys" by auto
  from Cons.prems(3) ob have cy: "type_chain reg (m_iid ob) (chain y)"
    and ch: "\<forall>m \<in> set ys. type_chain reg (iid_of hg m) (chain m)"
    by (simp_all add: iid_of_def)
  have ry: "\<And>p x. resolver y p (hg, x) = Some (Inr (hg, F y p x))"
    by (rule Cons.prems(4)) simp
  have rs: "\<And>c p x. c \<in> set ys \<Longrightarrow> resolver c p (hg, x) = Some (Inr (hg, F c p x))"
    by (rule Cons.prems(4)) simp
  note up = DoCollectSources_up_chain[of resolver y hg F reg "m_iid ob" "chain y" mgr path x0,
      OF ry cy]
  note IH = Cons.IH[OF rest a ch rs]
  show ?case
    by (subst DoCollectSources_walk.simps)
       (simp add: ob ya up IH collect_calls_Cons foldl_calls_member)
qed

lemma DoTraceAll_walk_path:
  assumes "\<And>c x. c \<in> set ys \<Longrightarrow> resolver c (hg, x) = Some (Inr (hg, G c x))"
  shows "next_path hg q ys a \<Longrightarrow> a \<notin> set ys \<Longrightarrow>
    DoTraceAll_walk resolver a (Some q) (hg, x0) = Some (Inr (hg, foldl (\<lambda>x c. G c x) x0 ys))"
  using assms
proof (induction ys arbitrary: q x0)
  case Nil
  then show ?case
    by (subst DoTraceAll_walk.simps) simp
next
  case (Cons y ys)
  from Cons.prems(1) obtain ob n where ob: "q = y" "hg y = Some ob" "m_next ob = Some n"
    and rest: "next_path hg n ys a"
    by (auto split: option.splits)
  from Cons.prems(2) have ya: "y \<noteq> a" and a: "a \<notin> set ys" by auto
  have ry: "\<And>x. resolver y (hg, x) = Some (Inr (hg, G y x))"
    by (rule Cons.prems(3)) simp
  have rs: "\<And>c x. c \<in> set ys \<Longrightarrow> resolver c (hg, x) = Some (Inr (hg, G c x))"
    by (rule Cons.prems(3)) simp
  note IH = Cons.IH[OF rest a rs]
  show ?case
    by (subst DoTraceAll_walk.simps) (simp add: ob ya ry IH)
qed

lemma set_clear_collecting:
  "h a = Some t \<Longrightarrow> \<not> m_collecting t \<Longrightarrow> h(a \<mapsto> t\<lparr>m_collecting := False\<rparr>) = h"
  by (rule ext) simp

lemma DoCollectSources_idle:
  assumes r: "ring h a (a # ys)" and idle: "\<forall>x \<in> set (a # ys). \<not> collecting_of h x"
    and ha: "h a = Some t"
    and ch: "\<forall>m \<in> set ys. type_chain reg (iid_of h m) (chain m)"
    and res: "\<And>c p x. c \<in> set ys \<Longrightarrow>
                resolver c p (h(a \<mapsto> t\<lparr>m_collecting := True\<rparr>), x) =
                  Some (Inr (h(a \<mapsto> t\<lparr>m_collecting := True\<rparr>), F c p x))"
  shows "DoCollectSources resolver reg mgr a path (h, x0) =
           Some (Inr (h, foldl (\<lambda>x (c, p). F c p x) x0 (collect_calls mgr path chain ys)))"
proof -
  define hg where "hg = h(a \<mapsto> t\<lparr>m_collecting := True\<rparr>)"
  from r have a: "a \<notin> set ys" by (simp add: ring_def)
  from r ha obtain n where n: "m_next t = Some n" and p: "next_path h n ys a"
    by (auto elim!: ring_split)
  have pg: "next_path hg n ys a"
    unfolding hg_def using p a by (simp add: path_upd)
  have chg: "\<forall>m \<in> set ys. type_chain reg (iid_of hg m) (chain m)"
    using ch a by (auto simp: hg_def iid_of_def)
  have nc: "\<not> m_collecting t"
    using idle ha by (simp add: collecting_of_def)
  have walk: "DoCollectSources_walk resolver reg mgr path a (Some n) (hg, x0) =
      Some (Inr (hg, foldl (\<lambda>x (c, p). F c p x) x0 (collect_calls mgr path chain ys)))"
    by (rule DoCollectSources_walk_path[OF _ pg a chg]) (simp add: hg_def res)
  have restore: "h(a \<mapsto> t\<lparr>m_collecting := False\<rparr>) = h"
    using ha nc by (rule set_clear_collecting)
  have hga: "hg a = Some (t\<lparr>m_collecting := True\<rparr>)"
    by (simp add: hg_def)
  show ?thesis
    unfolding DoCollectSources_def
    using idle
    by (simp add: collecting_loop_ring[OF r] ha n walk[unfolded hg_def] hga[unfolded hg_def]
        restore del: set_simps)
qed

lemma DoTraceAll_idle:
  assumes r: "ring h a (a # ys)" and idle: "\<forall>x \<in> set (a # ys). \<not> collecting_of h x"
    and ha: "h a = Some t"
    and res: "\<And>c x. c \<in> set ys \<Longrightarrow>
                resolver c (h(a \<mapsto> t\<lparr>m_collecting := True\<rparr>), x) =
                  Some (Inr (h(a \<mapsto> t\<lparr>m_collecting := True\<rparr>), G c x))"
  shows "DoTraceAll resolver a (h, x0) = Some (Inr (h, foldl (\<lambda>x c. G c x) x0 ys))"
proof -
  define hg where "hg = h(a \<mapsto> t\<lparr>m_collecting := True\<rparr>)"
  from r have a: "a \<notin> set ys" by (simp add: ring_def)
  from r ha obtain n where n: "m_next t = Some n" and p: "next_path h n ys a"
    by (auto elim!: ring_split)
  have pg: "next_path hg n ys a"
    unfolding hg_def using p a by (simp add: path_upd)
  have nc: "\<not> m_collecting t"
    using idle ha by (simp add: collecting_of_def)
  have walk: "DoTraceAll_walk resolver a (Some n) (hg, x0) =
      Some (Inr (hg, foldl (\<lambda>x c. G c x) x0 ys))"
    by (rule DoTraceAll_walk_path[OF _ pg a]) (simp add: hg_def res)
  have restore: "h(a \<mapsto> t\<lparr>m_collecting := False\<rparr>) = h"
    using ha nc by (rule set_clear_collecting)
  have hga: "hg a = Some (t\<lparr>m_collecting := True\<rparr>)"
    by (simp add: hg_def)
  show ?thesis
    unfolding DoTraceAll_def
    using idle
    by (simp add: collecting_loop_ring[OF r] ha n walk[unfolded hg_def] hga[unfolded hg_def]
        restore del: set_simps)
qed

lemma foldl_keep: "foldl (\<lambda>x (c, p). x) x0 l = x0"
  by (induction l) auto

lemma foldl_keep1: "foldl (\<lambda>x c. x) x0 l = x0"
  by (induction l) auto

lemma foldl_record: "foldl (\<lambda>x (c, p). x @ [(c, p)]) x0 l = x0 @ l"
  by (induction l arbitrary: x0) auto

lemma foldl_record1: "foldl (\<lambda>x c. x @ [c]) x0 l = x0 @ l"
  by (induction l arbitrary: x0) auto

lemma count_of_set_collecting:
  "h a = Some t \<Longrightarrow> count_of (h(a \<mapsto> t\<lparr>m_collecting := b\<rparr>)) x = count_of h x"
  by (simp add: count_of_def)

lemma base_CollectSources_Suc:
  "base_CollectSources (Suc n) reg mgr this path s =
     assert_CheckLoose (fst s) this
       (DoCollectSources (base_CollectSources n reg mgr) reg mgr this path s)"
  by simp

lemma base_TraceAll_Suc:
  "base_TraceAll (Suc n) this s =
     assert_CheckLoose (fst s) this (DoTraceAll (base_TraceAll n) this s)"
  by simp

lemma base_reentrant:
  assumes r: "ring h a (a # ys)" and ha: "h a = Some t"
    and live: "ring_count h (a # ys) \<noteq> 0" and c: "c \<in> set (a # ys)"
  defines "hg \<equiv> h(a \<mapsto> t\<lparr>m_collecting := True\<rparr>)"
  shows "base_CollectSources (Suc n) reg mgr c p (hg, x) = Some (Inr (hg, x))"
    and "base_TraceAll (Suc n) c (hg, x) = Some (Inr (hg, x))"
proof -
  have rg: "ring hg a (a # ys)"
    unfolding hg_def using r ha by (simp add: ring_set_collecting)
  have "ring_count hg (a # ys) = ring_count h (a # ys)"
    unfolding hg_def by (rule ring_count_cong) (rule count_of_set_collecting[of h a t, OF ha])
  with live have lg: "ring_count hg (a # ys) \<noteq> 0" by simp
  from ring_rotate[OF rg c] obtain zs where zs: "ring hg c zs" "set zs = set (a # ys)"
    "ring_count hg zs = ring_count hg (a # ys)"
    by blast
  from lg zs have lz: "ring_count hg zs \<noteq> 0" by simp
  have "collecting_of hg a"
    by (simp add: hg_def collecting_of_def)
  with zs(2) have busy: "\<exists>x \<in> set zs. collecting_of hg x" by auto
  show "base_CollectSources (Suc n) reg mgr c p (hg, x) = Some (Inr (hg, x))"
    by (simp add: assert_CheckLoose_ring[OF zs(1) lz] DoCollectSources_busy[OF zs(1) busy])
  show "base_TraceAll (Suc n) c (hg, x) = Some (Inr (hg, x))"
    by (simp add: assert_CheckLoose_ring[OF zs(1) lz] DoTraceAll_busy[OF zs(1) busy])
qed

section \<open>The claims about the enumeration of trace sources\<close>

text \<open>
  C5, as the code has it.  Let \<open>a # ys\<close> be the ring of \<open>a\<close>, no member collecting,
  the interface id of each member of \<open>ys\<close> leading to the root through \<open>chain\<close>.  With
  member resolvers that record their calls and return, \<open>DoCollectSources\<close> on \<open>a\<close>
  calls, for each member of the ring other than \<open>a\<close> itself, in ring order, and for each
  id of that member's chain from its own id up to the root excluded, the resolver of
  that member with the path extended by \<open>/$\<close> and the name of the id; \<open>DoTraceAll\<close>
  calls the resolver of each member other than \<open>a\<close> once, in ring order.  Both leave the
  store as it was.  The resolver of \<open>a\<close> itself is not called.
\<close>

theorem DoCollectSources_calls:
  assumes "ring h a (a # ys)"
    and "\<forall>x \<in> set (a # ys). \<not> collecting_of h x"
    and "\<forall>m \<in> set ys. type_chain reg (iid_of h m) (chain m)"
  shows "DoCollectSources recording_CollectSources reg mgr a path (h, log) =
           Some (Inr (h, log @ collect_calls mgr path chain ys)) \<and>
         DoTraceAll recording_TraceAll a (h, log') = Some (Inr (h, log' @ ys))"
proof -
  from assms(1) obtain t where ha: "h a = Some t"
    by (auto elim!: ring_split)
  have "DoCollectSources recording_CollectSources reg mgr a path (h, log) =
     Some (Inr (h, foldl (\<lambda>x (c, p). x @ [(c, p)]) log (collect_calls mgr path chain ys)))"
    by (rule DoCollectSources_idle[OF assms(1,2) ha assms(3)])
       (simp add: recording_CollectSources_def)
  moreover have "DoTraceAll recording_TraceAll a (h, log') =
     Some (Inr (h, foldl (\<lambda>x c. x @ [c]) log' ys))"
    by (rule DoTraceAll_idle[OF assms(1,2) ha]) (simp add: recording_TraceAll_def)
  ultimately show ?thesis
    by (simp only: foldl_record foldl_record1)
qed

theorem DoCollectSources_calls_witness:
  "ring heap_three 0 (0 # [1, 2]) \<and> \<not> collecting_of heap_three 0 \<and>
   \<not> collecting_of heap_three 1 \<and> \<not> collecting_of heap_three 2 \<and>
   type_chain test_registry (iid_of heap_three 1) [4] \<and>
   type_chain test_registry (iid_of heap_three 2) [] \<and>
   DoCollectSources recording_CollectSources test_registry test_manager 0 ''/n'' (heap_three, []) =
     Some (Inr (heap_three, [(1, ''/n/$BaseB'')])) \<and>
   DoTraceAll recording_TraceAll 0 (heap_three, []) = Some (Inr (heap_three, [1, 2]))"
proof -
  have r: "ring heap_three 0 (0 # [1, 2])"
    by (simp add: ring_def heap_three_def mk_object_def)
  have i: "\<forall>x \<in> set (0 # [1, 2]). \<not> collecting_of heap_three x"
    by (simp add: collecting_of_def heap_three_def mk_object_def)
  have c: "\<forall>m \<in> set [1, 2]. type_chain test_registry (iid_of heap_three m)
                        ((\<lambda>m. if m = 1 then [4] else []) m)"
    by (simp add: iid_of_def heap_three_def mk_object_def test_registry_def)
  have e: "collect_calls test_manager ''/n'' (\<lambda>m. if m = 1 then [4] else []) [1, 2] =
           [(1 :: addr, ''/n/$BaseB'')]"
    by (simp add: collect_calls_def GetName_def test_manager_def)
  from i have i': "\<not> collecting_of heap_three 0" "\<not> collecting_of heap_three 1"
    "\<not> collecting_of heap_three 2"
    by simp_all
  from c have c': "type_chain test_registry (iid_of heap_three 1) [4]"
    "type_chain test_registry (iid_of heap_three 2) []"
    by simp_all
  from DoCollectSources_calls[OF r i c, of test_manager "''/n''" "[]" "[]"] r i' c'
  show ?thesis
    unfolding e by simp
qed

text \<open>
  In the aggregate of a \<open>DerivedA\<close> (object 0) and a \<open>BaseB\<close> (object 1), the
  enumeration started at object 0 calls the resolver of object 1 only: the ids
  \<open>DerivedA\<close> and \<open>BaseA\<close> of object 0 are not visited, and \<open>DoTraceAll\<close> does not call
  the resolver of object 0.
\<close>

theorem DoCollectSources_skips_receiver_counterexample:
  "ring heap_AB 0 [0, 1] \<and> type_chain test_registry (iid_of heap_AB 0) [3, 2] \<and>
   type_chain test_registry (iid_of heap_AB 1) [4] \<and>
   DoCollectSources recording_CollectSources test_registry test_manager 0 ''/n'' (heap_AB, []) =
     Some (Inr (heap_AB, [(1, ''/n/$BaseB'')])) \<and>
   DoTraceAll recording_TraceAll 0 (heap_AB, []) = Some (Inr (heap_AB, [1]))"
proof -
  have r: "ring heap_AB 0 (0 # [1])"
    by (simp add: ring_def heap_AB_def mk_object_def)
  have i: "\<forall>x \<in> set (0 # [1]). \<not> collecting_of heap_AB x"
    by (simp add: collecting_of_def heap_AB_def mk_object_def)
  have c: "\<forall>m \<in> set [1]. type_chain test_registry (iid_of heap_AB m) (chain_AB m)"
    by (simp add: iid_of_def heap_AB_def mk_object_def test_registry_def chain_AB_def)
  have c0: "type_chain test_registry (iid_of heap_AB 0) [3, 2]"
    and c1: "type_chain test_registry (iid_of heap_AB 1) [4]"
    by (simp_all add: iid_of_def heap_AB_def mk_object_def test_registry_def)
  have ha: "heap_AB 0 = Some (mk_object 1 3 1)"
    by (simp add: heap_AB_def)
  have e: "collect_calls test_manager ''/n'' chain_AB [1] = [(1 :: addr, ''/n/$BaseB'')]"
    by (simp add: collect_calls_def GetName_def test_manager_def chain_AB_def)
  have "DoCollectSources recording_CollectSources test_registry test_manager 0 ''/n'' (heap_AB, []) =
     Some (Inr (heap_AB, foldl (\<lambda>x (c, p). x @ [(c, p)]) [] (collect_calls test_manager ''/n'' chain_AB [1])))"
    by (rule DoCollectSources_idle[OF r i ha c]) (simp add: recording_CollectSources_def)
  moreover have "DoTraceAll recording_TraceAll 0 (heap_AB, []) =
     Some (Inr (heap_AB, foldl (\<lambda>x c. x @ [c]) [] [1]))"
    by (rule DoTraceAll_idle[OF r i ha]) (simp add: recording_TraceAll_def)
  ultimately show ?thesis
    using r c0 c1 unfolding e by simp
qed

lemma foldl_observe:
  "foldl (\<lambda>x (c, p). x @ [(c, p, True)]) x0 l = x0 @ map (\<lambda>(c, p). (c, p, True)) l"
  by (induction l arbitrary: x0) auto

lemma foldl_observe1:
  "foldl (\<lambda>x c. x @ [(c, True)]) x0 l = x0 @ map (\<lambda>c. (c, True)) l"
  by (induction l arbitrary: x0) auto

text \<open>
  C6.  Let \<open>a # ys\<close> be the ring of \<open>a\<close>.

  If \<open>m_collecting\<close> of some member is set, \<open>DoCollectSources\<close> and \<open>DoTraceAll\<close> on
  \<open>a\<close> return at once, whatever the member resolvers are: state unchanged, no resolver
  called.

  If no member has it set (and the ids of the other members lead to the root), the
  walk takes place with the guard set, and the guard is cleared on exit.  With member
  resolvers that record whether \<open>m_collecting\<close> of \<open>a\<close> is set when they are called,
  \<open>DoCollectSources\<close> records every call of the walk over the other members, each
  with the flag set, and \<open>DoTraceAll\<close> one call for each other member, each with the
  flag set; both return the store they were given, in which no flag is set.  With
  member resolvers that return only when called while the flag of \<open>a\<close> is set, both
  functions return.

  With the resolvers of the base class on a live ring, which call \<open>DoCollectSources\<close>
  and \<open>DoTraceAll\<close> on the members again, two levels of nesting are enough for any
  ring: the nested calls find the flag set and return.
\<close>

theorem collecting_guard:
  assumes "ring h a (a # ys)"
  shows "((\<exists>x \<in> set (a # ys). collecting_of h x) \<longrightarrow>
            DoCollectSources resolver reg mgr a path (h, x0) = Some (Inr (h, x0)) \<and>
            DoTraceAll resolver' a (h, x0) = Some (Inr (h, x0))) \<and>
         ((\<forall>x \<in> set (a # ys). \<not> collecting_of h x) \<and>
          (\<forall>m \<in> set ys. type_chain reg (iid_of h m) (chain m)) \<longrightarrow>
            DoCollectSources (observing_CollectSources a) reg mgr a path (h, log) =
              Some (Inr (h, log @ map (\<lambda>(c, p). (c, p, True))
                                    (collect_calls mgr path chain ys))) \<and>
            DoTraceAll (observing_TraceAll a) a (h, log') =
              Some (Inr (h, log' @ map (\<lambda>c. (c, True)) ys)) \<and>
            DoCollectSources (guarded_CollectSources a) reg mgr a path (h, x0) =
              Some (Inr (h, x0)) \<and>
            DoTraceAll (guarded_TraceAll a) a (h, x0) = Some (Inr (h, x0)) \<and>
            (ring_count h (a # ys) \<noteq> 0 \<longrightarrow>
               (\<forall>n. base_CollectSources (Suc (Suc n)) reg mgr a path (h, x0) =
                      Some (Inr (h, x0)) \<and>
                    base_TraceAll (Suc (Suc n)) a (h, x0) = Some (Inr (h, x0)))))"
proof -
  from assms obtain t where ha: "h a = Some t"
    by (auto elim!: ring_split)
  have busy: "DoCollectSources resolver reg mgr a path (h, x0) = Some (Inr (h, x0)) \<and>
              DoTraceAll resolver' a (h, x0) = Some (Inr (h, x0))"
    if "\<exists>x \<in> set (a # ys). collecting_of h x"
    by (intro conjI) (rule DoCollectSources_busy[OF assms that], rule DoTraceAll_busy[OF assms that])
  have idle: "DoCollectSources (observing_CollectSources a) reg mgr a path (h, log) =
              Some (Inr (h, log @ map (\<lambda>(c, p). (c, p, True))
                                    (collect_calls mgr path chain ys))) \<and>
            DoTraceAll (observing_TraceAll a) a (h, log') =
              Some (Inr (h, log' @ map (\<lambda>c. (c, True)) ys)) \<and>
            DoCollectSources (guarded_CollectSources a) reg mgr a path (h, x0) =
              Some (Inr (h, x0)) \<and>
            DoTraceAll (guarded_TraceAll a) a (h, x0) = Some (Inr (h, x0)) \<and>
            (ring_count h (a # ys) \<noteq> 0 \<longrightarrow>
               (\<forall>n. base_CollectSources (Suc (Suc n)) reg mgr a path (h, x0) =
                      Some (Inr (h, x0)) \<and>
                    base_TraceAll (Suc (Suc n)) a (h, x0) = Some (Inr (h, x0))))"
    if i: "\<forall>x \<in> set (a # ys). \<not> collecting_of h x"
      and c: "\<forall>m \<in> set ys. type_chain reg (iid_of h m) (chain m)"
  proof (intro conjI impI allI)
    have "DoCollectSources (observing_CollectSources a) reg mgr a path (h, log) =
       Some (Inr (h, foldl (\<lambda>x (c, p). x @ [(c, p, True)]) log
                      (collect_calls mgr path chain ys)))"
      by (rule DoCollectSources_idle[OF assms i ha c])
         (simp add: observing_CollectSources_def collecting_of_def)
    then show "DoCollectSources (observing_CollectSources a) reg mgr a path (h, log) =
       Some (Inr (h, log @ map (\<lambda>(c, p). (c, p, True)) (collect_calls mgr path chain ys)))"
      by (simp only: foldl_observe)
    have "DoTraceAll (observing_TraceAll a) a (h, log') =
       Some (Inr (h, foldl (\<lambda>x c. x @ [(c, True)]) log' ys))"
      by (rule DoTraceAll_idle[OF assms i ha])
         (simp add: observing_TraceAll_def collecting_of_def)
    then show "DoTraceAll (observing_TraceAll a) a (h, log') =
       Some (Inr (h, log' @ map (\<lambda>c. (c, True)) ys))"
      by (simp only: foldl_observe1)
    have "DoCollectSources (guarded_CollectSources a) reg mgr a path (h, x0) =
       Some (Inr (h, foldl (\<lambda>x (c, p). x) x0 (collect_calls mgr path chain ys)))"
      by (rule DoCollectSources_idle[OF assms i ha c])
         (simp add: guarded_CollectSources_def collecting_of_def)
    then show "DoCollectSources (guarded_CollectSources a) reg mgr a path (h, x0) =
       Some (Inr (h, x0))"
      by (simp only: foldl_keep)
    have "DoTraceAll (guarded_TraceAll a) a (h, x0) = Some (Inr (h, foldl (\<lambda>x c. x) x0 ys))"
      by (rule DoTraceAll_idle[OF assms i ha])
         (simp add: guarded_TraceAll_def collecting_of_def)
    then show "DoTraceAll (guarded_TraceAll a) a (h, x0) = Some (Inr (h, x0))"
      by (simp only: foldl_keep1)
  next
    fix n
    assume live: "ring_count h (a # ys) \<noteq> 0"
    have "DoCollectSources (base_CollectSources (Suc n) reg mgr) reg mgr a path (h, x0) =
       Some (Inr (h, foldl (\<lambda>x (c, p). x) x0 (collect_calls mgr path chain ys)))"
      by (rule DoCollectSources_idle[OF assms i ha c])
         (rule base_reentrant(1)[OF assms ha live], simp)
    then show "base_CollectSources (Suc (Suc n)) reg mgr a path (h, x0) = Some (Inr (h, x0))"
      by (subst base_CollectSources_Suc)
         (simp add: assert_CheckLoose_ring[OF assms live] foldl_keep
          del: base_CollectSources.simps(2))
  next
    fix n
    assume live: "ring_count h (a # ys) \<noteq> 0"
    have "DoTraceAll (base_TraceAll (Suc n)) a (h, x0) =
       Some (Inr (h, foldl (\<lambda>x c. x) x0 ys))"
      by (rule DoTraceAll_idle[OF assms i ha])
         (rule base_reentrant(2)[OF assms ha live], simp)
    then show "base_TraceAll (Suc (Suc n)) a (h, x0) = Some (Inr (h, x0))"
      by (subst base_TraceAll_Suc)
         (simp add: assert_CheckLoose_ring[OF assms live] foldl_keep1
          del: base_TraceAll.simps(2))
  qed
  from busy idle show ?thesis
    by blast
qed

theorem collecting_guard_witness:
  "ring heap_AB_busy 0 (0 # [1]) \<and> (\<exists>x \<in> set (0 # [1]). collecting_of heap_AB_busy x) \<and>
   DoCollectSources (\<lambda>c p s. None) test_registry test_manager 0 ''/n'' (heap_AB_busy, ()) =
     Some (Inr (heap_AB_busy, ())) \<and>
   DoTraceAll (\<lambda>c s. None) 0 (heap_AB_busy, ()) = Some (Inr (heap_AB_busy, ())) \<and>
   ring heap_AB 0 (0 # [1]) \<and> \<not> collecting_of heap_AB 0 \<and> \<not> collecting_of heap_AB 1 \<and>
   type_chain test_registry (iid_of heap_AB 1) (chain_AB 1) \<and>
   ring_count heap_AB (0 # [1]) \<noteq> 0 \<and>
   DoCollectSources (observing_CollectSources 0) test_registry test_manager 0 ''/n''
       (heap_AB, []) =
     Some (Inr (heap_AB, [(1, ''/n/$BaseB'', True)])) \<and>
   DoTraceAll (observing_TraceAll 0) 0 (heap_AB, []) = Some (Inr (heap_AB, [(1, True)])) \<and>
   DoCollectSources (guarded_CollectSources 0) test_registry test_manager 0 ''/n'' (heap_AB, ()) =
     Some (Inr (heap_AB, ())) \<and>
   DoTraceAll (guarded_TraceAll 0) 0 (heap_AB, ()) = Some (Inr (heap_AB, ())) \<and>
   base_CollectSources (Suc (Suc 0)) test_registry test_manager 0 ''/n'' (heap_AB, ()) =
     Some (Inr (heap_AB, ())) \<and>
   base_TraceAll (Suc (Suc 0)) 0 (heap_AB, ()) = Some (Inr (heap_AB, ()))"
proof -
  have rb: "ring heap_AB_busy 0 (0 # [1])"
    by (simp add: ring_def heap_AB_busy_def mk_object_def)
  have b: "\<exists>x \<in> set (0 # [1]). collecting_of heap_AB_busy x"
    by (simp add: collecting_of_def heap_AB_busy_def mk_object_def)
  have r: "ring heap_AB 0 (0 # [1])"
    by (simp add: ring_def heap_AB_def mk_object_def)
  have i: "\<forall>x \<in> set (0 # [1]). \<not> collecting_of heap_AB x"
    by (simp add: collecting_of_def heap_AB_def mk_object_def)
  have c: "\<forall>m \<in> set [1]. type_chain test_registry (iid_of heap_AB m) (chain_AB m)"
    by (simp add: iid_of_def heap_AB_def mk_object_def test_registry_def chain_AB_def)
  have l: "ring_count heap_AB (0 # [1]) \<noteq> 0"
    by (simp add: ring_count_def count_of_def heap_AB_def mk_object_def)
  have e: "map (\<lambda>(c, p). (c, p, True)) (collect_calls test_manager ''/n'' chain_AB [1]) =
           [(1 :: addr, ''/n/$BaseB'', True)]"
    by (simp add: collect_calls_def GetName_def test_manager_def chain_AB_def)
  note busy = collecting_guard[OF rb, where resolver = "\<lambda>c p s. None" and reg = test_registry
      and mgr = test_manager and path = "''/n''" and ?x0.0 = "()"
      and resolver' = "\<lambda>c s. None" and chain = chain_AB and log = "[]" and log' = "[]"]
  note idle = collecting_guard[OF r, where resolver = "\<lambda>c p s. None" and reg = test_registry
      and mgr = test_manager and path = "''/n''" and ?x0.0 = "()"
      and resolver' = "\<lambda>c s. None" and chain = chain_AB and log = "[]" and log' = "[]"]
  from i have i': "\<not> collecting_of heap_AB 0" "\<not> collecting_of heap_AB 1"
    by simp_all
  from c have c': "type_chain test_registry (iid_of heap_AB 1) (chain_AB 1)"
    by simp
  from idle i c l have res:
    "DoCollectSources (observing_CollectSources 0) test_registry test_manager 0 ''/n''
       (heap_AB, []) =
     Some (Inr (heap_AB, [] @ map (\<lambda>(c, p). (c, p, True))
                               (collect_calls test_manager ''/n'' chain_AB [1])))"
    "DoTraceAll (observing_TraceAll 0) 0 (heap_AB, []) =
     Some (Inr (heap_AB, [] @ map (\<lambda>c. (c, True)) [1]))"
    "DoCollectSources (guarded_CollectSources 0) test_registry test_manager 0 ''/n''
       (heap_AB, ()) = Some (Inr (heap_AB, ()))"
    "DoTraceAll (guarded_TraceAll 0) 0 (heap_AB, ()) = Some (Inr (heap_AB, ()))"
    "base_CollectSources (Suc (Suc 0)) test_registry test_manager 0 ''/n'' (heap_AB, ()) =
       Some (Inr (heap_AB, ()))"
    "base_TraceAll (Suc (Suc 0)) 0 (heap_AB, ()) = Some (Inr (heap_AB, ()))"
    by blast+
  from busy rb b have resb:
    "DoCollectSources (\<lambda>c p s. None) test_registry test_manager 0 ''/n'' (heap_AB_busy, ()) =
       Some (Inr (heap_AB_busy, ()))"
    "DoTraceAll (\<lambda>c s. None) 0 (heap_AB_busy, ()) = Some (Inr (heap_AB_busy, ()))"
    by blast+
  from res(1) have r1: "DoCollectSources (observing_CollectSources 0) test_registry test_manager
       0 ''/n'' (heap_AB, []) = Some (Inr (heap_AB, [(1, ''/n/$BaseB'', True)]))"
    unfolding e by simp
  from res(2) have r2: "DoTraceAll (observing_TraceAll 0) 0 (heap_AB, []) =
       Some (Inr (heap_AB, [(1, True)]))"
    by simp
  from rb b resb r i' c' l r1 r2 res(3-6) show ?thesis
    by (intro conjI)
qed

section \<open>An interface that is not in the aggregate\<close>

text \<open>
  C7.  Let the first element of the path be a dollar sign followed by \<open>name\<close>, let
  \<open>name\<close> be registered (its uid is not zero and fits 16 bits), and let
  \<open>QueryInterface\<close> for its id on the aggregate of the resolver return null.  Then
  \<open>Connect\<close> and \<open>Disconnect\<close> return normally with the state they were given,
  whatever the resolvers of the members would do: none of them is called.
\<close>

theorem Connect_unresolved:
  assumes "GetElement path = CHR ''$'' # name"
    and "LookupByName mgr name \<noteq> 0" and "LookupByName mgr name \<le> 0xffff"
    and "DoQueryInterface reg h m_aggregate (ucast (LookupByName mgr name)) = Some (Inr None)"
  shows "Connect resolver reg mgr m_aggregate path (h, x) = Some (Inr (h, x)) \<and>
         Disconnect resolver' reg mgr m_aggregate path (h, x) = Some (Inr (h, x))"
proof -
  have "InterfaceId_LookupByName mgr name = Inr (ucast (LookupByName mgr name))"
    using assms(2,3) by (simp add: InterfaceId_LookupByName_def)
  then have "ParseForInterface reg mgr h m_aggregate path = Some (Inr None)"
    using assms(1,4) by (simp add: ParseForInterface_def)
  then show ?thesis
    by (simp add: Connect_def Disconnect_def)
qed

theorem Connect_unresolved_witness:
  "GetElement ''/$DerivedB/derivedb-x'' = CHR ''$'' # ''DerivedB'' \<and>
   LookupByName test_manager ''DerivedB'' \<noteq> 0 \<and>
   LookupByName test_manager ''DerivedB'' \<le> 0xffff \<and>
   DoQueryInterface test_registry heap_AB 0 (ucast (LookupByName test_manager ''DerivedB'')) =
     Some (Inr None) \<and>
   Connect (\<lambda>c p s. None) test_registry test_manager 0 ''/$DerivedB/derivedb-x'' (heap_AB, ()) =
     Some (Inr (heap_AB, ())) \<and>
   Disconnect (\<lambda>c p s. None) test_registry test_manager 0 ''/$DerivedB/derivedb-x'' (heap_AB, ()) =
     Some (Inr (heap_AB, ()))"
proof -
  have e: "GetElement ''/$DerivedB/derivedb-x'' = CHR ''$'' # ''DerivedB''"
    by (simp add: GetElement_def)
  have u: "LookupByName test_manager ''DerivedB'' = 5"
    by (simp add: test_manager_def)
  have n: "LookupByName test_manager ''DerivedB'' \<noteq> 0"
    and l: "LookupByName test_manager ''DerivedB'' \<le> 0xffff"
    unfolding u by simp_all
  have r: "ring heap_AB 0 [0, 1]"
    by (simp add: ring_def heap_AB_def mk_object_def)
  have lv: "ring_count heap_AB [0, 1] \<noteq> 0"
    by (simp add: ring_count_def count_of_def heap_AB_def mk_object_def)
  have c: "\<forall>x \<in> set [0, 1]. type_chain test_registry (iid_of heap_AB x) (chain_AB x)"
    by (simp add: iid_of_def heap_AB_def mk_object_def chain_AB_def test_registry_def)
  have "DoQueryInterface test_registry heap_AB 0 5 = Some (Inr None)"
    unfolding DoQueryInterface_find[OF r lv c]
    by (simp add: chain_AB_def test_registry_def)
  then have q: "DoQueryInterface test_registry heap_AB 0
                  (ucast (LookupByName test_manager ''DerivedB'')) = Some (Inr None)"
    unfolding u by simp
  from Connect_unresolved[OF e n l q, where resolver = "\<lambda>c p s. None" and x = "()"
      and resolver' = "\<lambda>c p s. None"] e n l q
  show ?thesis
    by (intro conjI) simp_all
qed

section \<open>Dispatch and round trip of the accessors\<close>

lemma dynamic_cast_Some:
  "dynamic_cast ti T object = Some obj \<Longrightarrow> object = Some obj"
  by (auto simp: dynamic_cast_def split: option.splits if_splits)

lemma DynCast_Some:
  "DynCast ti U val = Some v \<Longrightarrow> val = Some v"
  by (auto simp: DynCast_def split: option.splits if_splits)

lemma fst_DoSet: "fst (DoSet b conv obj v) = has_setter b"
  by (cases b) simp_all

lemma fst_DoGet: "fst (DoGet b conv obj v) = has_getter b"
  by (cases b) simp_all

lemma DoSet_no_setter: "\<not> has_setter b \<Longrightarrow> DoSet b conv obj v = (False, obj)"
  by (cases b) simp_all

lemma DoGet_no_getter: "\<not> has_getter b \<Longrightarrow> DoGet b conv obj v = (False, v)"
  by (cases b) simp_all

lemma Set_returns:
  "fst (Set ti acc object val) \<longleftrightarrow>
     DynCast ti (box_class acc) val \<noteq> None \<and>
     dynamic_cast ti (owner_class acc) object \<noteq> None \<and> has_setter (bound acc)"
  by (simp add: Set_def case_prod_unfold fst_DoSet split: option.splits)

lemma Set_false_unchanged:
  "\<not> fst (Set ti acc object val) \<Longrightarrow> snd (Set ti acc object val) = object"
proof (cases "DynCast ti (box_class acc) val")
  case None
  then show ?thesis by (simp add: Set_def)
next
  case (Some v)
  assume f: "\<not> fst (Set ti acc object val)"
  show ?thesis
  proof (cases "dynamic_cast ti (owner_class acc) object")
    case None
    with Some show ?thesis by (simp add: Set_def)
  next
    case (Some obj)
    with \<open>DynCast ti (box_class acc) val = Some v\<close> f have "\<not> has_setter (bound acc)"
      by (simp add: Set_returns)
    then have "DoSet (bound acc) (of_box acc) (members obj) (contents v) = (False, members obj)"
      by (rule DoSet_no_setter)
    with Some \<open>DynCast ti (box_class acc) val = Some v\<close> dynamic_cast_Some[OF Some]
    show ?thesis by (simp add: Set_def)
  qed
qed

lemma Get_returns:
  "fst (Get ti acc object val) \<longleftrightarrow>
     DynCast ti (box_class acc) val \<noteq> None \<and>
     dynamic_cast ti (owner_class acc) object \<noteq> None \<and> has_getter (bound acc)"
  by (simp add: Get_def case_prod_unfold fst_DoGet split: option.splits)

lemma Get_false_unchanged:
  "\<not> fst (Get ti acc object val) \<Longrightarrow> snd (Get ti acc object val) = val"
proof (cases "DynCast ti (box_class acc) val")
  case None
  then show ?thesis by (simp add: Get_def)
next
  case (Some v)
  assume f: "\<not> fst (Get ti acc object val)"
  show ?thesis
  proof (cases "dynamic_cast ti (owner_class acc) object")
    case None
    with Some show ?thesis by (simp add: Get_def)
  next
    case (Some obj)
    with \<open>DynCast ti (box_class acc) val = Some v\<close> f have "\<not> has_getter (bound acc)"
      by (simp add: Get_returns)
    then have "DoGet (bound acc) (to_box acc) (members obj) (contents v) = (False, contents v)"
      by (rule DoGet_no_getter)
    with Some \<open>DynCast ti (box_class acc) val = Some v\<close>
      DynCast_Some[OF \<open>DynCast ti (box_class acc) val = Some v\<close>]
    show ?thesis by (simp add: Get_def)
  qed
qed

lemma Set_mutation:
  assumes "DynCast ti (box_class acc) val = Some v"
    and "dynamic_cast ti (owner_class acc) object = Some obj"
  shows "bound acc = MemberVariable m \<Longrightarrow>
           Set ti acc object val =
             (True, Some (obj\<lparr>members := (members obj)(m := of_box acc (contents v))\<rparr>))"
    and "bound acc = SetterMethod setter \<Longrightarrow>
           Set ti acc object val =
             (True, Some (obj\<lparr>members := setter (of_box acc (contents v)) (members obj)\<rparr>))"
    and "bound acc = SetterGetter setter getter \<Longrightarrow>
           Set ti acc object val =
             (True, Some (obj\<lparr>members := setter (of_box acc (contents v)) (members obj)\<rparr>))"
  using assms by (simp_all add: Set_def)

lemma Get_populates:
  assumes "DynCast ti (box_class acc) val = Some v"
    and "dynamic_cast ti (owner_class acc) object = Some obj"
  shows "bound acc = MemberVariable m \<Longrightarrow>
           Get ti acc object val = (True, Some (v\<lparr>contents := to_box acc (members obj m)\<rparr>))"
    and "bound acc = GetterMethod getter \<Longrightarrow>
           Get ti acc object val =
             (True, Some (v\<lparr>contents := to_box acc (getter (members obj))\<rparr>))"
    and "bound acc = SetterGetter setter getter \<Longrightarrow>
           Get ti acc object val =
             (True, Some (v\<lparr>contents := to_box acc (getter (members obj))\<rparr>))"
  using assms by (simp_all add: Get_def)

text \<open>
  C8.  For every accessor, object pointer and boxed value: \<open>Set\<close> returns true exactly
  when the cast of the boxed value to the accessor's value class and the cast of the
  object to its owner class both succeed and the binding can write; when it returns
  false the object is unchanged; when both casts succeed, a member variable is assigned
  the converted value and a setter is called with it.  \<open>Get\<close> returns true exactly
  when both casts succeed and the binding can read; when it returns false the boxed
  value is unchanged; when both casts succeed, the box receives the member variable or
  the result of the getter.
\<close>

theorem accessor_dispatch:
  "(fst (Set ti acc object val) \<longleftrightarrow>
      DynCast ti (box_class acc) val \<noteq> None \<and>
      dynamic_cast ti (owner_class acc) object \<noteq> None \<and> has_setter (bound acc)) \<and>
   (\<not> fst (Set ti acc object val) \<longrightarrow> snd (Set ti acc object val) = object) \<and>
   (\<forall>v obj. DynCast ti (box_class acc) val = Some v \<and>
            dynamic_cast ti (owner_class acc) object = Some obj \<longrightarrow>
      (\<forall>m. bound acc = MemberVariable m \<longrightarrow>
           Set ti acc object val =
             (True, Some (obj\<lparr>members := (members obj)(m := of_box acc (contents v))\<rparr>))) \<and>
      (\<forall>setter. bound acc = SetterMethod setter \<longrightarrow>
           Set ti acc object val =
             (True, Some (obj\<lparr>members := setter (of_box acc (contents v)) (members obj)\<rparr>))) \<and>
      (\<forall>setter getter. bound acc = SetterGetter setter getter \<longrightarrow>
           Set ti acc object val =
             (True, Some (obj\<lparr>members := setter (of_box acc (contents v)) (members obj)\<rparr>)))) \<and>
   (fst (Get ti acc object val) \<longleftrightarrow>
      DynCast ti (box_class acc) val \<noteq> None \<and>
      dynamic_cast ti (owner_class acc) object \<noteq> None \<and> has_getter (bound acc)) \<and>
   (\<not> fst (Get ti acc object val) \<longrightarrow> snd (Get ti acc object val) = val) \<and>
   (\<forall>v obj. DynCast ti (box_class acc) val = Some v \<and>
            dynamic_cast ti (owner_class acc) object = Some obj \<longrightarrow>
      (\<forall>m. bound acc = MemberVariable m \<longrightarrow>
           Get ti acc object val = (True, Some (v\<lparr>contents := to_box acc (members obj m)\<rparr>))) \<and>
      (\<forall>getter. bound acc = GetterMethod getter \<longrightarrow>
           Get ti acc object val =
             (True, Some (v\<lparr>contents := to_box acc (getter (members obj))\<rparr>))) \<and>
      (\<forall>setter getter. bound acc = SetterGetter setter getter \<longrightarrow>
           Get ti acc object val =
             (True, Some (v\<lparr>contents := to_box acc (getter (members obj))\<rparr>))))"
proof (intro conjI allI impI)
  show "fst (Set ti acc object val) \<longleftrightarrow>
      DynCast ti (box_class acc) val \<noteq> None \<and>
      dynamic_cast ti (owner_class acc) object \<noteq> None \<and> has_setter (bound acc)"
    by (rule Set_returns)
  show "fst (Get ti acc object val) \<longleftrightarrow>
      DynCast ti (box_class acc) val \<noteq> None \<and>
      dynamic_cast ti (owner_class acc) object \<noteq> None \<and> has_getter (bound acc)"
    by (rule Get_returns)
next
  assume "\<not> fst (Set ti acc object val)"
  then show "snd (Set ti acc object val) = object"
    by (rule Set_false_unchanged)
next
  assume "\<not> fst (Get ti acc object val)"
  then show "snd (Get ti acc object val) = val"
    by (rule Get_false_unchanged)
qed (simp_all add: Set_mutation Get_populates)

theorem accessor_dispatch_witness:
  "DynCast test_rtti (box_class x_accessor) (Some (box7 5)) = Some (box7 5) \<and>
   dynamic_cast test_rtti (owner_class x_accessor) (Some test_object) = Some test_object \<and>
   bound x_accessor = MemberVariable ''x'' \<and>
   Set test_rtti x_accessor (Some test_object) (Some (box7 5)) =
     (True, Some (test_object\<lparr>members := (members test_object)(''x'' := 5)\<rparr>)) \<and>
   Get test_rtti x_accessor (Some test_object) (Some (box7 5)) = (True, Some (box7 0)) \<and>
   \<not> fst (Set test_rtti x_getter (Some test_object) (Some (box7 5))) \<and>
   snd (Set test_rtti x_getter (Some test_object) (Some (box7 5))) = Some test_object \<and>
   \<not> fst (Set test_rtti x_accessor None (Some (box7 5)))"
proof -
  have v: "DynCast test_rtti (box_class x_accessor) (Some (box7 5)) = Some (box7 5)"
    by (simp add: DynCast_def test_rtti_def x_accessor_def box7_def)
  have ob: "dynamic_cast test_rtti (owner_class x_accessor) (Some test_object) = Some test_object"
    by (simp add: dynamic_cast_def test_rtti_def x_accessor_def test_object_def)
  have b: "bound x_accessor = MemberVariable ''x''"
    by (simp add: x_accessor_def)
  have g: "\<not> has_setter (bound x_getter)"
    by (simp add: x_getter_def)
  have n: "dynamic_cast test_rtti (owner_class x_accessor) None = None"
    by (simp add: dynamic_cast_def)
  note d1 = accessor_dispatch[of test_rtti x_accessor "Some test_object" "Some (box7 5)"]
  note d2 = accessor_dispatch[of test_rtti x_getter "Some test_object" "Some (box7 5)"]
  note d3 = accessor_dispatch[of test_rtti x_accessor None "Some (box7 5)"]
  have s: "Set test_rtti x_accessor (Some test_object) (Some (box7 5)) =
     (True, Some (test_object\<lparr>members :=
        (members test_object)(''x'' := of_box x_accessor (contents (box7 5)))\<rparr>))"
    using d1 v ob b by blast
  have t: "Get test_rtti x_accessor (Some test_object) (Some (box7 5)) =
     (True, Some ((box7 5)\<lparr>contents := to_box x_accessor (members test_object ''x'')\<rparr>))"
    using d1 v ob b by blast
  have f: "\<not> fst (Set test_rtti x_getter (Some test_object) (Some (box7 5)))"
    using d2 g by blast
  then have u: "snd (Set test_rtti x_getter (Some test_object) (Some (box7 5))) = Some test_object"
    using d2 by blast
  have z: "\<not> fst (Set test_rtti x_accessor None (Some (box7 5)))"
    using d3 n by blast
  have s': "of_box x_accessor (contents (box7 5)) = 5"
    by (simp add: x_accessor_def box7_def)
  have t': "(box7 5)\<lparr>contents := to_box x_accessor (members test_object ''x'')\<rparr> = box7 0"
    by (simp add: x_accessor_def box7_def test_object_def)
  from v ob b s t f u z show ?thesis
    unfolding s' t' by (intro conjI)
qed

text \<open>
  C9.  For an accessor bound to a member variable, an object of the owner class and
  boxed values of the accessor's value class: if writing the converted contents of the
  box back into a box gives the same contents, then \<open>Set\<close> with the box followed by
  \<open>Get\<close> into another box both return true, and the second box then holds the
  contents of the first.
\<close>

theorem member_variable_round_trip:
  assumes "bound acc = MemberVariable m"
    and "dynamic_cast ti (owner_class acc) object = Some obj"
    and "DynCast ti (box_class acc) val = Some v"
    and "DynCast ti (box_class acc) out = Some w"
    and "to_box acc (of_box acc (contents v)) = contents v"
  shows "\<exists>object' out'. Set ti acc object val = (True, object') \<and>
           Get ti acc object' out = (True, Some out') \<and> contents out' = contents v"
proof -
  let ?obj = "obj\<lparr>members := (members obj)(m := of_box acc (contents v))\<rparr>"
  have s: "Set ti acc object val = (True, Some ?obj)"
    using assms(3,2,1) by (rule Set_mutation(1))
  from assms(2) have "object_is_a ti (dyn_class obj) (owner_class acc)"
    by (auto simp: dynamic_cast_def split: option.splits if_splits)
  then have c: "dynamic_cast ti (owner_class acc) (Some ?obj) = Some ?obj"
    by (simp add: dynamic_cast_def)
  have g: "Get ti acc (Some ?obj) out = (True, Some (w\<lparr>contents := to_box acc (members ?obj m)\<rparr>))"
    using assms(4) c assms(1) by (rule Get_populates(1))
  have "contents (w\<lparr>contents := to_box acc (members ?obj m)\<rparr>) = contents v"
    using assms(5) by simp
  with s g show ?thesis by blast
qed

theorem member_variable_round_trip_witness:
  "bound x_accessor = MemberVariable ''x'' \<and>
   dynamic_cast test_rtti (owner_class x_accessor) (Some test_object) = Some test_object \<and>
   DynCast test_rtti (box_class x_accessor) (Some (box7 5)) = Some (box7 5) \<and>
   DynCast test_rtti (box_class x_accessor) (Some (box7 0)) = Some (box7 0) \<and>
   to_box x_accessor (of_box x_accessor (contents (box7 5))) = contents (box7 5) \<and>
   (\<exists>object' out'. Set test_rtti x_accessor (Some test_object) (Some (box7 5)) = (True, object') \<and>
      Get test_rtti x_accessor object' (Some (box7 0)) = (True, Some out') \<and>
      contents out' = contents (box7 5))"
proof -
  have b: "bound x_accessor = MemberVariable ''x''"
    by (simp add: x_accessor_def)
  have ob: "dynamic_cast test_rtti (owner_class x_accessor) (Some test_object) = Some test_object"
    by (simp add: dynamic_cast_def test_rtti_def x_accessor_def test_object_def)
  have v: "DynCast test_rtti (box_class x_accessor) (Some (box7 5)) = Some (box7 5)"
    by (simp add: DynCast_def test_rtti_def x_accessor_def box7_def)
  have w: "DynCast test_rtti (box_class x_accessor) (Some (box7 0)) = Some (box7 0)"
    by (simp add: DynCast_def test_rtti_def x_accessor_def box7_def)
  have l: "to_box x_accessor (of_box x_accessor (contents (box7 5))) = contents (box7 5)"
    by (simp add: x_accessor_def box7_def)
  from member_variable_round_trip[OF b ob v w l] b ob v w l show ?thesis
    by (intro conjI)
qed

end
